theory Spec2Isabelle
  imports Complex_Main "HOL-Library.AList" "HOL-Library.While_Combinator"
begin

section \<open>The RJMS control layer of batsim-py (src/batsim_py/rjms.py)\<close>

text \<open>
  The controller \<open>RJMSHandler\<close> and its \<open>Agenda\<close> are embedded as functions on an
  explicit state. Python objects that are shared between containers (jobs, resources)
  live in stores keyed by an object reference (jobs) or by the resource id (resources),
  so that a mutation through one alias is seen through every other one. Every
  exception of the source is a value: an operation returns \<open>Return v s\<close> with the
  state it leaves, or \<open>Raise e s\<close> with the state as mutated up to the raise.
\<close>

subsection \<open>Errors and outcomes\<close>

datatype error =
    AssertionError
  | KeyError
  | TypeError
  | AttributeError
  | ValueError
  | StopIteration
  | ZeroDivisionError
  | InsufficientResources

datatype ('a, 's) outcome = Return 'a 's | Raise error 's

fun state_of :: "('a, 's) outcome \<Rightarrow> 's" where
  "state_of (Return v s) = s"
| "state_of (Raise e s) = s"

fun returns :: "('a, 's) outcome \<Rightarrow> bool" where
  "returns (Return v s) = True"
| "returns (Raise e s) = False"

subsection \<open>Jobs, resources and nodes\<close>

text \<open>
  Modelled from the spec: the enumerations \<open>JobState\<close>, \<open>ResourceState\<close> and
  \<open>PowerStateType\<close> are imported by rjms.py from modules that are not part of the
  sources at hand; their members are the lifecycle states, host states and power-state
  types that section 3 of the specification lists.
\<close>

datatype JobState =
    SUBMITTED
  | RUNNABLE
  | RUNNING
  | COMPLETED_SUCCESSFULLY
  | COMPLETED_KILLED
  | COMPLETED_WALLTIME_REACHED
  | REJECTED

datatype ResourceState = SLEEPING | IDLE | COMPUTING | SWITCHING_ON | SWITCHING_OFF

datatype PowerStateType = computation | sleep | switching_on | switching_off

text \<open>
  Modelled from the spec: a job's walltime is a number, or infinite when the
  submission gives none.
\<close>

datatype walltime = Finite real | Infinite

text \<open>
  Modelled from the spec: class \<open>Job\<close> (batsim_py.job) is absent; the fields are those
  rjms.py reads and writes. Python's \<open>id\<close> is \<open>job_id\<close> here.
\<close>

record job =
  job_id :: string
  res :: nat
  walltime :: walltime
  state :: JobState
  allocation :: "nat list option"
  start_time :: "real option"
  stop_time :: "real option"

text \<open>Modelled from the spec: \<open>Job.set_allocation\<close> binds the allocation; the job is runnable.\<close>

definition set_allocation :: "nat list \<Rightarrow> job \<Rightarrow> job" where
  "set_allocation ids j = j\<lparr>allocation := Some ids, state := RUNNABLE\<rparr>"

text \<open>Modelled from the spec: \<open>Job.start\<close> records the start time; the job is running.\<close>

definition start :: "real \<Rightarrow> job \<Rightarrow> job" where
  "start t j = j\<lparr>state := RUNNING, start_time := Some t\<rparr>"

text \<open>Modelled from the spec: \<open>Job.terminate\<close> records the stop time and the final state.\<close>

definition terminate :: "real \<Rightarrow> JobState \<Rightarrow> job \<Rightarrow> job" where
  "terminate t fs j = j\<lparr>state := fs, stop_time := Some t\<rparr>"

text \<open>
  Modelled from the spec: classes \<open>Resource\<close> and \<open>Node\<close> (batsim_py.resource) are
  absent. A resource has an id and the id of the node it belongs to; its mutable state
  is kept in the controller's store under its id. A node has an id and a table of
  power states (id and type).
\<close>

record resource =
  resource_id :: nat
  parent_id :: nat

record node =
  node_id :: nat
  power_states :: "(nat \<times> PowerStateType) list"

subsection \<open>The agenda\<close>

text \<open>
  \<open>Agenda.reservations\<close> is a \<open>SortedDict\<close> ordered by resource id whose values are
  \<open>None\<close> or the reserving job. It is an association list in ascending key order; a job
  is the reference of the job object.
\<close>

type_synonym reservations = "(nat \<times> nat option) list"

text \<open>
  \<open>reservations[k] = v\<close>: the value of an existing key is replaced in place. For a key
  that is not in the dictionary, \<open>SortedDict\<close> first applies its key function
  \<open>int(k.id)\<close> to the new key, and a resource id has no attribute \<open>id\<close>: the assignment
  raises \<open>AttributeError\<close> and the dictionary is as it was.
\<close>

fun sd_set :: "reservations \<Rightarrow> nat \<Rightarrow> nat option \<Rightarrow> error + reservations" where
  "sd_set [] k v = Inl AttributeError"
| "sd_set ((k', v') # xs) k v =
     (if k = k' then Inr ((k, v) # xs)
      else (case sd_set xs k v of
              Inl e \<Rightarrow> Inl e
            | Inr ys \<Rightarrow> Inr ((k', v') # ys)))"

text \<open>
  The loop \<open>for r in ids: self.reservations[r] = v\<close>: an assignment that raises ends
  the loop, and the entries assigned before it stay assigned.
\<close>

fun set_all :: "reservations \<Rightarrow> nat list \<Rightarrow> nat option \<Rightarrow> (unit, reservations) outcome" where
  "set_all ag [] v = Return () ag"
| "set_all ag (r # rs) v =
     (case sd_set ag r v of
        Inl e \<Rightarrow> Raise e ag
      | Inr ag' \<Rightarrow> set_all ag' rs v)"

text \<open>
  \<open>Agenda.__init__\<close>: every resource of the platform, unreserved, in the order of the
  ids (the sort of \<open>SortedDict\<close> keeps the order of insertion among equal keys).
\<close>

definition Agenda :: "resource list \<Rightarrow> reservations" where
  "Agenda rs = sort_key fst (map (\<lambda>r. (resource_id r, None)) rs)"

text \<open>
  \<open>all(self.reservations[r] is None for r in allocation)\<close>: the generator stops at the
  first reserved resource; looking up an unknown key raises \<open>KeyError\<close>.
\<close>

fun all_free :: "reservations \<Rightarrow> nat list \<Rightarrow> error + bool" where
  "all_free ag [] = Inr True"
| "all_free ag (r # rs) =
     (case map_of ag r of
        None \<Rightarrow> Inl KeyError
      | Some None \<Rightarrow> all_free ag rs
      | Some (Some j) \<Rightarrow> Inr False)"

text \<open>
  \<open>Agenda.reserve(job)\<close>: the assertion comes first, so a failing call leaves the
  reservations as they were. Iterating an unset allocation raises \<open>TypeError\<close>.
\<close>

definition reserve :: "(nat \<Rightarrow> job) \<Rightarrow> reservations \<Rightarrow> nat \<Rightarrow> (unit, reservations) outcome" where
  "reserve js ag j =
     (case allocation (js j) of
        None \<Rightarrow> Raise TypeError ag
      | Some al \<Rightarrow>
          (case all_free ag al of
             Inl e \<Rightarrow> Raise e ag
           | Inr False \<Rightarrow> Raise AssertionError ag
           | Inr True \<Rightarrow> set_all ag al (Some j)))"

text \<open>
  \<open>Agenda.release(*resource_ids)\<close>: each listed entry is set to \<open>None\<close>; whether it
  holds a reservation is not checked.
\<close>

definition release :: "reservations \<Rightarrow> nat list \<Rightarrow> (unit, reservations) outcome" where
  "release ag ids = set_all ag ids None"

text \<open>
  \<open>runtime / j.walltime\<close>: true division; a zero divisor raises, an infinite one gives
  zero.
\<close>

fun truediv :: "real \<Rightarrow> walltime \<Rightarrow> error + real" where
  "truediv x (Finite w) = (if w = 0 then Inl ZeroDivisionError else Inr (x / w))"
| "truediv x Infinite = Inr 0"

text \<open>The body of the loop of \<open>Agenda.get_progress\<close> for one reservation.\<close>

definition progress_entry :: "(nat \<Rightarrow> job) \<Rightarrow> real \<Rightarrow> nat option \<Rightarrow> error + real" where
  "progress_entry js current_time resv =
     (case resv of
        None \<Rightarrow> Inr 0
      | Some j \<Rightarrow>
          if state (js j) = RUNNING then
            (case start_time (js j) of
               None \<Rightarrow> Inl TypeError
             | Some st \<Rightarrow>
                 (case truediv (current_time - st) (walltime (js j)) of
                    Inl e \<Rightarrow> Inl e
                  | Inr q \<Rightarrow> Inr (1 - q)))
          else Inr 1)"

fun get_progress :: "(nat \<Rightarrow> job) \<Rightarrow> reservations \<Rightarrow> real \<Rightarrow> error + real list" where
  "get_progress js [] current_time = Inr []"
| "get_progress js ((r, resv) # ag) current_time =
     (case progress_entry js current_time resv of
        Inl e \<Rightarrow> Inl e
      | Inr p \<Rightarrow>
          (case get_progress js ag current_time of
             Inl e \<Rightarrow> Inl e
           | Inr ps \<Rightarrow> Inr (p # ps)))"

subsection \<open>The controller state\<close>

text \<open>Requests the controller sends through the simulator adapter, oldest first.\<close>

datatype request =
    EXECUTE_JOB string "nat list"
  | REJECT_JOB string
  | SET_RESOURCES_PSTATE "nat list" nat
  | CALL_ME_LATER real

text \<open>
  The state of an \<open>RJMSHandler\<close> once \<open>on_simulation_begins\<close> has bound the platform and
  built the agenda. \<open>is_running\<close>, \<open>current_time\<close> and \<open>requests\<close> belong to the simulator
  adapter; \<open>resources\<close> and \<open>nodes\<close> are the platform, \<open>resource_state\<close> holds the state of
  each resource object under its id, \<open>jobs\<close> holds each job object under its reference.
  The cohorts \<open>queue\<close>, \<open>ready\<close> and \<open>completed\<close> are lists of job references and
  \<open>running\<close> is the dictionary from job id to job reference, in insertion order.
  \<open>callbacks\<close> holds the subscribers of \<open>JOB_ALLOCATED\<close> in the order of their
  registration; a subscriber is called with the current time and the job and is
  modelled by what it raises, if anything.
\<close>

record rjms =
  use_batsim :: bool
  is_running :: bool
  current_time :: real
  requests :: "request list"
  resources :: "resource list"
  nodes :: "node list"
  resource_state :: "nat \<Rightarrow> ResourceState"
  jobs :: "nat \<Rightarrow> job"
  queue :: "nat list"
  ready :: "nat list"
  running :: "(string \<times> nat) list"
  completed :: "nat list"
  agenda :: reservations
  submitter_ended :: bool
  callbacks :: "(real \<Rightarrow> job \<Rightarrow> error option) list"

text \<open>
  Modelled from the spec: \<open>Platform.get_resources(ids)\<close> is absent; it yields the
  resources with the listed ids, in the order given, and fails on an unknown id.
\<close>

fun get_resources :: "resource list \<Rightarrow> nat list \<Rightarrow> error + resource list" where
  "get_resources rs [] = Inr []"
| "get_resources rs (i # ids) =
     (case find (\<lambda>r. resource_id r = i) rs of
        None \<Rightarrow> Inl KeyError
      | Some r \<Rightarrow>
          (case get_resources rs ids of
             Inl e \<Rightarrow> Inl e
           | Inr xs \<Rightarrow> Inr (r # xs)))"

text \<open>\<open>platform.get_resources(job.allocation)\<close>; an unset allocation cannot be iterated.\<close>

definition allocated_resources :: "rjms \<Rightarrow> nat \<Rightarrow> error + resource list" where
  "allocated_resources s j =
     (case allocation (jobs s j) of
        None \<Rightarrow> Inl TypeError
      | Some al \<Rightarrow> get_resources (resources s) al)"

subsection \<open>Event handlers\<close>

text \<open>\<open>on_job_submitted\<close>; \<open>j\<close> is the reference of \<open>data.job\<close>.\<close>

definition on_job_submitted :: "rjms \<Rightarrow> nat \<Rightarrow> (unit, rjms) outcome" where
  "on_job_submitted s j =
     (if res (jobs s j) > length (resources s)
      then Return () (s\<lparr>requests := requests s @ [REJECT_JOB (job_id (jobs s j))]\<rparr>)
      else Return () (s\<lparr>queue := queue s @ [j]\<rparr>))"

text \<open>
  The loop \<open>for r in resources: r.release(); self._agenda.release(r.id)\<close>.
  Modelled from the spec: \<open>Resource.release\<close> is absent; the resource returns to idle.
\<close>

fun release_resources :: "resource list \<Rightarrow> rjms \<Rightarrow> (unit, rjms) outcome" where
  "release_resources [] s = Return () s"
| "release_resources (r # rs) s =
     (case release (agenda s) [resource_id r] of
        Raise e ag \<Rightarrow>
          Raise e (s\<lparr>resource_state := (resource_state s)(resource_id r := IDLE), agenda := ag\<rparr>)
      | Return u ag \<Rightarrow>
          release_resources rs
            (s\<lparr>resource_state := (resource_state s)(resource_id r := IDLE), agenda := ag\<rparr>))"

text \<open>
  What \<open>on_job_completed\<close> and the body of the loop of \<open>on_job_killed\<close> have in common:
  pop the job from \<open>running\<close>, terminate it, release its resources.
\<close>

definition pop_and_release :: "rjms \<Rightarrow> string \<Rightarrow> JobState \<Rightarrow> (nat, rjms) outcome" where
  "pop_and_release s jid fs =
     (case map_of (running s) jid of
        None \<Rightarrow> Raise KeyError s
      | Some j \<Rightarrow>
          (let s1 = s\<lparr>running := AList.delete jid (running s)\<rparr>;
               s2 = s1\<lparr>jobs := (jobs s1)(j := terminate (current_time s1) fs (jobs s1 j))\<rparr>
           in case allocated_resources s2 j of
                Inl e \<Rightarrow> Raise e s2
              | Inr rs \<Rightarrow>
                  (case release_resources rs s2 of
                     Raise e s3 \<Rightarrow> Raise e s3
                   | Return u s3 \<Rightarrow> Return j s3)))"

definition on_job_completed :: "rjms \<Rightarrow> string \<Rightarrow> JobState \<Rightarrow> (unit, rjms) outcome" where
  "on_job_completed s data_job_id data_job_state =
     (case pop_and_release s data_job_id data_job_state of
        Raise e s3 \<Rightarrow> Raise e s3
      | Return j s3 \<Rightarrow> Return () (s3\<lparr>completed := completed s3 @ [j]\<rparr>))"

text \<open>
  \<open>on_job_killed\<close>: the loop runs once for each element of \<open>data.job_ids\<close>, but its body
  reads \<open>data.job_id\<close> and never the loop variable, and it does not append to
  \<open>completed\<close>. \<open>data_job_id\<close> is \<open>None\<close> when the event object has no such attribute.
\<close>

fun on_job_killed :: "rjms \<Rightarrow> string list \<Rightarrow> string option \<Rightarrow> (unit, rjms) outcome" where
  "on_job_killed s [] data_job_id = Return () s"
| "on_job_killed s (i # data_job_ids) data_job_id =
     (case data_job_id of
        None \<Rightarrow> Raise AttributeError s
      | Some jid \<Rightarrow>
          (case pop_and_release s jid COMPLETED_KILLED of
             Raise e s3 \<Rightarrow> Raise e s3
           | Return j s3 \<Rightarrow> on_job_killed s3 data_job_ids data_job_id))"

subsection \<open>Starting ready jobs\<close>

text \<open>
  Modelled from the spec: \<open>Node.wakeup\<close> is absent; a sleeping resource of the node
  goes to switching-on, which is the only transition the host lifecycle has for a
  wake-up.
\<close>

definition wakeup :: "rjms \<Rightarrow> nat \<Rightarrow> rjms" where
  "wakeup s n =
     s\<lparr>resource_state :=
        (\<lambda>i. if i \<in> set (map resource_id (filter (\<lambda>r. parent_id r = n) (resources s)))
                  \<and> resource_state s i = SLEEPING
             then SWITCHING_ON else resource_state s i)\<rparr>"

text \<open>
  \<open>turn_on(node_id)\<close> for the single node \<open>initiate_resources\<close> passes: look the node up
  (modelled from the spec: \<open>Platform.get_node\<close> fails on an unknown id), wake it, take
  its first computation power state (\<open>next\<close> raises \<open>StopIteration\<close> when there is none)
  and request that power state for the resources of the node.
\<close>

definition turn_on :: "rjms \<Rightarrow> nat \<Rightarrow> (unit, rjms) outcome" where
  "turn_on s n =
     (case find (\<lambda>nd. node_id nd = n) (nodes s) of
        None \<Rightarrow> Raise KeyError s
      | Some nd \<Rightarrow>
          (let s1 = wakeup s n
           in case find (\<lambda>ps. snd ps = computation) (power_states nd) of
                None \<Rightarrow> Raise StopIteration s1
              | Some ps \<Rightarrow>
                  Return ()
                    (s1\<lparr>requests := requests s1 @
                       [SET_RESOURCES_PSTATE
                          (map resource_id (filter (\<lambda>r. parent_id r = n) (resources s1)))
                          (fst ps)]\<rparr>)))"

text \<open>
  \<open>initiate_resources\<close>: the loop carries \<open>ready\<close> and \<open>nodes_visited\<close>; \<open>r.is_idle\<close> and
  \<open>r.is_sleeping\<close> read the state the resource has when the loop reaches it.
\<close>

fun initiate_loop :: "resource list \<Rightarrow> bool \<Rightarrow> nat list \<Rightarrow> rjms \<Rightarrow> (bool, rjms) outcome" where
  "initiate_loop [] rdy nodes_visited s = Return rdy s"
| "initiate_loop (r # rs) rdy nodes_visited s =
     (if resource_state s (resource_id r) \<noteq> IDLE \<and> parent_id r \<notin> set nodes_visited then
        (if resource_state s (resource_id r) = SLEEPING then
           (case turn_on s (parent_id r) of
              Raise e s1 \<Rightarrow> Raise e s1
            | Return u s1 \<Rightarrow> initiate_loop rs False (parent_id r # nodes_visited) s1)
         else initiate_loop rs False (parent_id r # nodes_visited) s)
      else initiate_loop rs rdy nodes_visited s)"

definition initiate_resources :: "rjms \<Rightarrow> resource list \<Rightarrow> (bool, rjms) outcome" where
  "initiate_resources s rs = initiate_loop rs True [] s"

text \<open>
  The state a job leaves when it starts: every allocated resource computing (modelled
  from the spec: \<open>Resource.start_computing\<close> is absent), the job started at the current
  time, \<open>execute_job\<close> requested, the job out of \<open>ready\<close> and in \<open>running\<close> under its id.
  \<open>list.remove\<close> raises \<open>ValueError\<close> when the job is not in the list.
\<close>

definition start_computing :: "resource list \<Rightarrow> (nat \<Rightarrow> ResourceState) \<Rightarrow> (nat \<Rightarrow> ResourceState)" where
  "start_computing rs f = fold (\<lambda>r g. g(resource_id r := COMPUTING)) rs f"

definition execute :: "rjms \<Rightarrow> nat \<Rightarrow> nat list \<Rightarrow> resource list \<Rightarrow> rjms" where
  "execute s j al rs =
     s\<lparr>resource_state := start_computing rs (resource_state s),
       jobs := (jobs s)(j := start (current_time s) (jobs s j)),
       requests := requests s @ [EXECUTE_JOB (job_id (jobs s j)) al]\<rparr>"

definition move_to_running :: "rjms \<Rightarrow> nat \<Rightarrow> (unit, rjms) outcome" where
  "move_to_running s j =
     (if j \<in> set (ready s)
      then Return ()
             (s\<lparr>ready := remove1 j (ready s),
                running := AList.update (job_id (jobs s j)) j (running s)\<rparr>)
      else Raise ValueError s)"

text \<open>The body of the loop of \<open>start_ready_jobs\<close> for the job \<open>j\<close>.\<close>

definition start_job :: "rjms \<Rightarrow> nat \<Rightarrow> (unit, rjms) outcome" where
  "start_job s j =
     (case allocation (jobs s j) of
        None \<Rightarrow> Raise TypeError s
      | Some al \<Rightarrow>
          (case get_resources (resources s) al of
             Inl e \<Rightarrow> Raise e s
           | Inr rs \<Rightarrow>
               (case initiate_resources s rs of
                  Raise e s1 \<Rightarrow> Raise e s1
                | Return rdy s1 \<Rightarrow>
                    if rdy then move_to_running (execute s1 j al rs) j
                    else Return () s1)))"

fun sweep :: "nat list \<Rightarrow> rjms \<Rightarrow> (unit, rjms) outcome" where
  "sweep [] s = Return () s"
| "sweep (j # js) s =
     (case start_job s j of
        Raise e s1 \<Rightarrow> Raise e s1
      | Return u s1 \<Rightarrow> sweep js s1)"

text \<open>\<open>start_ready_jobs\<close> iterates over \<open>list(self._jobs['ready'])\<close>, a copy taken at entry.\<close>

definition start_ready_jobs :: "rjms \<Rightarrow> (unit, rjms) outcome" where
  "start_ready_jobs s = sweep (ready s) s"

subsection \<open>Allocation\<close>

text \<open>
  \<open>Agenda.get_available_resources\<close>: the unreserved resources in key order.
\<close>

definition get_available_resources :: "reservations \<Rightarrow> nat list" where
  "get_available_resources ag = map fst (filter (\<lambda>kv. snd kv = None) ag)"

text \<open>
  \<open>_dispatch(event_type, data)\<close>: the subscribers are called in order; the first one
  that raises ends the loop, and nothing catches what it raises.
\<close>

fun dispatch :: "(real \<Rightarrow> job \<Rightarrow> error option) list \<Rightarrow> real \<Rightarrow> job \<Rightarrow> error option" where
  "dispatch [] t d = None"
| "dispatch (call # calls) t d =
     (case call t d of
        Some e \<Rightarrow> Some e
      | None \<Rightarrow> dispatch calls t d)"

text \<open>
  \<open>allocate(job_id, resource_ids)\<close>. The numbers of the enumeration \<open>ResourceState\<close>
  are not in the sources at hand, so \<open>state_value\<close> is a parameter; \<open>sorted\<close> is stable,
  as \<open>sort_key\<close> is. The job object is mutated by \<open>set_allocation\<close> before the agenda is
  asked to reserve, and the subscribers are called after the agenda has reserved and
  before the job moves from \<open>queue\<close> to \<open>ready\<close>.
\<close>

definition allocate ::
  "(ResourceState \<Rightarrow> int) \<Rightarrow> rjms \<Rightarrow> string \<Rightarrow> nat list option \<Rightarrow> (unit, rjms) outcome" where
  "allocate state_value s jid resource_ids =
     (case find (\<lambda>j. job_id (jobs s j) = jid) (queue s) of
        None \<Rightarrow> Raise StopIteration s
      | Some j \<Rightarrow>
          (let ids =
                 (case resource_ids of
                    None \<Rightarrow>
                      take (res (jobs s j))
                        (sort_key (\<lambda>r. state_value (resource_state s r))
                           (get_available_resources (agenda s)))
                  | Some xs \<Rightarrow> xs)
           in if length ids \<noteq> res (jobs s j) then Raise InsufficientResources s
              else
                (let s1 = s\<lparr>jobs := (jobs s)(j := set_allocation ids (jobs s j))\<rparr>
                 in case reserve (jobs s1) (agenda s1) j of
                      Raise e ag \<Rightarrow> Raise e (s1\<lparr>agenda := ag\<rparr>)
                    | Return u ag \<Rightarrow>
                        (let s2 = s1\<lparr>agenda := ag\<rparr>
                         in case dispatch (callbacks s2) (current_time s2) (jobs s2 j) of
                              Some e \<Rightarrow> Raise e s2
                            | None \<Rightarrow>
                                if j \<in> set (queue s2)
                                then Return ()
                                       (s2\<lparr>queue := remove1 j (queue s2),
                                           ready := ready s2 @ [j]\<rparr>)
                                else Raise ValueError s2))))"

subsection \<open>Advancing time\<close>

text \<open>
  \<open>simulator.proceed_simulation()\<close> is a parameter \<open>sim\<close>: what one call does to the
  controller, the handlers it runs included. It may raise. A loop that calls it may
  never end; \<open>while_option\<close> then yields \<open>None\<close>.
\<close>

definition drive ::
  "(rjms \<Rightarrow> bool) \<Rightarrow> (rjms \<Rightarrow> (unit, rjms) outcome) \<Rightarrow> rjms \<Rightarrow> (unit, rjms) outcome option" where
  "drive cond sim s =
     while_option (\<lambda>r. returns r \<and> cond (state_of r)) (\<lambda>r. sim (state_of r)) (Return () s)"

text \<open>\<open>check_end_of_simulation\<close>.\<close>

definition check_end_of_simulation ::
  "(rjms \<Rightarrow> (unit, rjms) outcome) \<Rightarrow> rjms \<Rightarrow> (unit, rjms) outcome option" where
  "check_end_of_simulation sim s =
     (if submitter_ended s \<and> is_running s \<and> length (ready s) = 0
         \<and> length (running s) = 0 \<and> length (queue s) = 0
      then drive is_running sim s
      else Some (Return () s))"

text \<open>The part of \<open>proceed_time\<close> between the sweep and the end-of-simulation check.\<close>

definition advance ::
  "(rjms \<Rightarrow> (unit, rjms) outcome) \<Rightarrow> real \<Rightarrow> rjms \<Rightarrow> (unit, rjms) outcome option" where
  "advance sim until s =
     (if until > 0 then
        (if until > current_time s
         then drive (\<lambda>t. is_running t \<and> current_time t < until) sim
                (s\<lparr>requests := requests s @ [CALL_ME_LATER (until + 1 / 1000)]\<rparr>)
         else Some (Raise AssertionError s))
      else Some (sim s))"

text \<open>What \<open>proceed_time\<close> does once the sweep over the ready jobs has returned.\<close>

definition after_sweep ::
  "(rjms \<Rightarrow> (unit, rjms) outcome) \<Rightarrow> real \<Rightarrow> rjms \<Rightarrow> (unit, rjms) outcome option" where
  "after_sweep sim until s1 =
     (case advance sim until s1 of
        None \<Rightarrow> None
      | Some (Raise e s2) \<Rightarrow> Some (Raise e s2)
      | Some (Return v s2) \<Rightarrow>
          if use_batsim s2 then check_end_of_simulation sim s2
          else Some (Return () s2))"

definition proceed_time ::
  "(rjms \<Rightarrow> (unit, rjms) outcome) \<Rightarrow> real \<Rightarrow> rjms \<Rightarrow> (unit, rjms) outcome option" where
  "proceed_time sim until s =
     (if \<not> is_running s then Some (Raise AssertionError s)
      else
        (case start_ready_jobs s of
           Raise e s1 \<Rightarrow> Some (Raise e s1)
         | Return u s1 \<Rightarrow> after_sweep sim until s1))"

section \<open>Predicates of the specification\<close>

text \<open>
  The definitions of this section are not code of the controller: they state the
  conditions and the effects that the specification speaks of, and the frame
  conditions the proofs carry through the loops.
\<close>

text \<open>\<open>r.is_idle\<close>, read from the store.\<close>

definition is_idle :: "rjms \<Rightarrow> resource \<Rightarrow> bool" where
  "is_idle s r = (resource_state s (resource_id r) = IDLE)"

text \<open>Every allocated resource of the job exists and is idle.\<close>

definition all_idle :: "rjms \<Rightarrow> nat \<Rightarrow> bool" where
  "all_idle s j =
     (case allocated_resources s j of
        Inl e \<Rightarrow> False
      | Inr rs \<Rightarrow> list_all (is_idle s) rs)"

text \<open>
  The job \<open>j\<close> has been started between \<open>s\<close> and \<open>s'\<close>: each allocated resource is
  computing and no other resource has changed, the job object is started at the current
  time, \<open>execute_job\<close> is the one request added, the job has left \<open>ready\<close> and is in
  \<open>running\<close> under its id.
\<close>

definition job_started :: "rjms \<Rightarrow> nat \<Rightarrow> rjms \<Rightarrow> bool" where
  "job_started s j s' =
     (case allocation (jobs s j) of
        None \<Rightarrow> False
      | Some al \<Rightarrow>
          resource_state s' = (\<lambda>i. if i \<in> set al then COMPUTING else resource_state s i)
        \<and> jobs s' = (jobs s)(j := start (current_time s) (jobs s j))
        \<and> requests s' = requests s @ [EXECUTE_JOB (job_id (jobs s j)) al]
        \<and> ready s' = remove1 j (ready s)
        \<and> running s' = AList.update (job_id (jobs s j)) j (running s))"

text \<open>The allocation of a job is bound and names known resources only.\<close>

definition alloc_ok :: "rjms \<Rightarrow> nat \<Rightarrow> bool" where
  "alloc_ok s j = (case allocated_resources s j of Inl e \<Rightarrow> False | Inr rs \<Rightarrow> True)"

definition alloc_set :: "rjms \<Rightarrow> nat \<Rightarrow> nat set" where
  "alloc_set s j = (case allocation (jobs s j) of None \<Rightarrow> {} | Some al \<Rightarrow> set al)"

text \<open>
  The node exists and has a computation power state; the platform is well formed when
  this holds of the node of every resource.
\<close>

definition node_ok :: "rjms \<Rightarrow> nat \<Rightarrow> bool" where
  "node_ok s n =
     (case find (\<lambda>nd. node_id nd = n) (nodes s) of
        None \<Rightarrow> False
      | Some nd \<Rightarrow>
          (case find (\<lambda>ps. snd ps = computation) (power_states nd) of
             None \<Rightarrow> False
           | Some ps \<Rightarrow> True))"

definition platform_ok :: "rjms \<Rightarrow> bool" where
  "platform_ok s = list_all (\<lambda>r. node_ok s (parent_id r)) (resources s)"

text \<open>
  Frame conditions. \<open>same_core\<close>: everything but the resource states and the requests
  is unchanged. \<open>rs_woken\<close>: a resource state is unchanged or went from sleeping to
  switching-on. \<open>reqs_ext\<close>: only power-state requests were added. \<open>woken\<close> is what
  \<open>initiate_resources\<close> may do to the state; \<open>frame k\<close> is what one iteration of the sweep
  on job \<open>k\<close> may do, and \<open>swept js\<close> what a sweep over the jobs \<open>js\<close> may do.
\<close>

definition same_core :: "rjms \<Rightarrow> rjms \<Rightarrow> bool" where
  "same_core s s' \<longleftrightarrow>
     use_batsim s' = use_batsim s \<and> is_running s' = is_running s
   \<and> current_time s' = current_time s \<and> resources s' = resources s \<and> nodes s' = nodes s
   \<and> jobs s' = jobs s \<and> queue s' = queue s \<and> ready s' = ready s \<and> running s' = running s
   \<and> completed s' = completed s \<and> agenda s' = agenda s
   \<and> submitter_ended s' = submitter_ended s \<and> callbacks s' = callbacks s"

definition rs_woken :: "(nat \<Rightarrow> ResourceState) \<Rightarrow> (nat \<Rightarrow> ResourceState) \<Rightarrow> bool" where
  "rs_woken f f' \<longleftrightarrow> (\<forall>i. f' i = f i \<or> (f i = SLEEPING \<and> f' i = SWITCHING_ON))"

fun is_pstate_request :: "request \<Rightarrow> bool" where
  "is_pstate_request (SET_RESOURCES_PSTATE ids ps) = True"
| "is_pstate_request x = False"

definition reqs_ext :: "request list \<Rightarrow> request list \<Rightarrow> bool" where
  "reqs_ext q q' \<longleftrightarrow> (\<exists>x. q' = q @ x \<and> list_all is_pstate_request x)"

definition woken :: "rjms \<Rightarrow> rjms \<Rightarrow> bool" where
  "woken s s' \<longleftrightarrow>
     same_core s s' \<and> rs_woken (resource_state s) (resource_state s')
   \<and> reqs_ext (requests s) (requests s')"

definition frame :: "nat \<Rightarrow> rjms \<Rightarrow> rjms \<Rightarrow> bool" where
  "frame k s s' \<longleftrightarrow>
     resources s' = resources s \<and> nodes s' = nodes s \<and> current_time s' = current_time s
   \<and> (\<forall>m. m \<noteq> k \<longrightarrow> jobs s' m = jobs s m)
   \<and> allocation (jobs s' k) = allocation (jobs s k)
   \<and> job_id (jobs s' k) = job_id (jobs s k)
   \<and> (\<forall>i. i \<notin> alloc_set s k \<longrightarrow> resource_state s i \<noteq> SLEEPING
          \<longrightarrow> resource_state s' i = resource_state s i)
   \<and> use_batsim s' = use_batsim s \<and> is_running s' = is_running s
   \<and> queue s' = queue s \<and> completed s' = completed s \<and> agenda s' = agenda s
   \<and> submitter_ended s' = submitter_ended s
   \<and> (ready s' = ready s \<or> ready s' = remove1 k (ready s))
   \<and> (running s' = running s \<or> running s' = AList.update (job_id (jobs s k)) k (running s))
   \<and> (\<exists>q. requests s' = requests s @ q)"

definition swept :: "nat list \<Rightarrow> rjms \<Rightarrow> rjms \<Rightarrow> bool" where
  "swept js s s' \<longleftrightarrow>
     (distinct (ready s) \<longrightarrow> distinct (ready s')) \<and>
     resources s' = resources s \<and> nodes s' = nodes s \<and> current_time s' = current_time s
   \<and> (\<forall>m. m \<notin> set js \<longrightarrow> jobs s' m = jobs s m)
   \<and> (\<forall>m. allocation (jobs s' m) = allocation (jobs s m))
   \<and> (\<forall>m. job_id (jobs s' m) = job_id (jobs s m))
   \<and> (\<forall>i. (\<forall>k \<in> set js. i \<notin> alloc_set s k) \<longrightarrow> resource_state s i \<noteq> SLEEPING
          \<longrightarrow> resource_state s' i = resource_state s i)
   \<and> (\<forall>m. m \<notin> set js \<longrightarrow> (m \<in> set (ready s')) = (m \<in> set (ready s)))
   \<and> (\<forall>x. (\<forall>k \<in> set js. job_id (jobs s k) \<noteq> x)
          \<longrightarrow> map_of (running s') x = map_of (running s) x)
   \<and> set (requests s) \<subseteq> set (requests s')"

text \<open>
  The left-hand side of the conservation law: the jobs in the four cohorts plus the
  jobs rejected at submission (one \<open>reject_job\<close> request each).
\<close>

fun is_reject :: "request \<Rightarrow> bool" where
  "is_reject (REJECT_JOB i) = True"
| "is_reject x = False"

definition accounted :: "rjms \<Rightarrow> nat" where
  "accounted s =
     length (queue s) + length (ready s) + length (running s) + length (completed s)
     + length (filter is_reject (requests s))"

text \<open>The outcome of \<open>k\<close> successive calls of \<open>proceed_simulation\<close> from the state \<open>s\<close>.\<close>

definition calls :: "(rjms \<Rightarrow> (unit, rjms) outcome) \<Rightarrow> nat \<Rightarrow> rjms \<Rightarrow> (unit, rjms) outcome" where
  "calls sim k s = ((\<lambda>r. sim (state_of r)) ^^ k) (Return () s)"



text \<open>
  The invariant of the controller. \<open>owned\<close>: the agenda holds every allocated resource
  of the job for that job. \<open>cohorts_ok\<close>: no job reference is twice in a cohort or in two
  of \<open>queue\<close>, \<open>ready\<close> and \<open>running\<close>. \<open>owners_ok\<close>: every ready and every running job
  owns its allocation. \<open>computing_ok\<close>: a computing resource is reserved, and by a job
  that is neither queued nor ready.
\<close>

definition owned :: "rjms \<Rightarrow> nat \<Rightarrow> bool" where
  "owned s j \<longleftrightarrow> (\<forall>i \<in> alloc_set s j. map_of (agenda s) i = Some (Some j))"

definition cohorts_ok :: "rjms \<Rightarrow> bool" where
  "cohorts_ok s \<longleftrightarrow>
     distinct (queue s) \<and> distinct (ready s) \<and> distinct (map snd (running s))
   \<and> set (queue s) \<inter> set (ready s) = {}
   \<and> set (map snd (running s)) \<inter> (set (queue s) \<union> set (ready s)) = {}"

definition owners_ok :: "rjms \<Rightarrow> bool" where
  "owners_ok s \<longleftrightarrow> (\<forall>j \<in> set (ready s) \<union> set (map snd (running s)). owned s j)"

definition computing_ok :: "rjms \<Rightarrow> bool" where
  "computing_ok s \<longleftrightarrow>
     (\<forall>i. resource_state s i = COMPUTING \<longrightarrow>
        (\<exists>k. map_of (agenda s) i = Some (Some k) \<and> k \<notin> set (ready s) \<and> k \<notin> set (queue s)))"

definition consistent :: "rjms \<Rightarrow> bool" where
  "consistent s \<longleftrightarrow> cohorts_ok s \<and> owners_ok s \<and> computing_ok s"

text \<open>
  \<open>fresh\<close>: the job reference is new, as the job object of a submission is. \<open>initial\<close>:
  the state \<open>on_simulation_begins\<close> leaves after \<open>start\<close>: empty cohorts, the agenda just
  built, no resource computing.
\<close>

definition fresh :: "rjms \<Rightarrow> nat \<Rightarrow> bool" where
  "fresh s j \<longleftrightarrow>
     j \<notin> set (queue s) \<and> j \<notin> set (ready s) \<and> j \<notin> set (map snd (running s))
   \<and> j \<notin> set (completed s) \<and> (\<forall>i. map_of (agenda s) i \<noteq> Some (Some j))"

definition initial :: "rjms \<Rightarrow> bool" where
  "initial s \<longleftrightarrow>
     queue s = [] \<and> ready s = [] \<and> running s = [] \<and> completed s = []
   \<and> agenda s = Agenda (resources s) \<and> (\<forall>i. resource_state s i \<noteq> COMPUTING)"

text \<open>
  The states the controller reaches from an initial one: by the handlers of
  submission, completion and kill, by \<open>allocate\<close>, by an iteration of the loop of
  \<open>start_ready_jobs\<close> on a job of \<open>ready\<close>, whatever their outcome, and by what the
  simulator and the power-state calls do to the rest of the state, which never marks a
  resource computing: \<open>start_computing\<close> is called in \<open>start_ready_jobs\<close> only.
\<close>

inductive reachable :: "rjms \<Rightarrow> bool" where
  begun: "initial s \<Longrightarrow> reachable s"
| submitted: "reachable s \<Longrightarrow> fresh s j \<Longrightarrow>
     reachable (state_of (on_job_submitted (s\<lparr>jobs := (jobs s)(j := jb)\<rparr>) j))"
| allocated: "reachable s \<Longrightarrow> reachable (state_of (allocate state_value s jid resource_ids))"
| iterated: "reachable s \<Longrightarrow> j \<in> set (ready s) \<Longrightarrow> reachable (state_of (start_job s j))"
| completed: "reachable s \<Longrightarrow> reachable (state_of (on_job_completed s jid fs))"
| killed: "reachable s \<Longrightarrow> reachable (state_of (on_job_killed s jids d))"
| environment: "reachable s \<Longrightarrow> (\<forall>i. f i = COMPUTING \<longrightarrow> resource_state s i = COMPUTING) \<Longrightarrow>
     reachable (s\<lparr>resource_state := f, current_time := t, is_running := b,
                  submitter_ended := e, requests := q, callbacks := cs\<rparr>)"

section \<open>Sample data\<close>

text \<open>Concrete jobs, states and adapters on which the theorems below are instantiated.\<close>

definition ex_job :: "nat list \<Rightarrow> job" where
  "ex_job al =
     \<lparr>job_id = ''w0'', res = length al, walltime = Finite 10, state = RUNNABLE,
      allocation = Some al, start_time = None, stop_time = None\<rparr>"

definition ex_store :: "nat \<Rightarrow> job" where
  "ex_store j =
     (if j = 7 then start 0 (ex_job [0])
      else if j = 8 then (start 0 (ex_job [1]))\<lparr>walltime := Infinite\<rparr>
      else ex_job [3])"

text \<open>
  Three job objects: 0 and 1 are allocated to the resources 0 and 1, 2 is submitted and
  not allocated yet.
\<close>

definition ex_jobs :: "nat \<Rightarrow> job" where
  "ex_jobs j =
     (if j = 0 then ex_job [0]
      else if j = 1 then (ex_job [1])\<lparr>job_id := ''w1''\<rparr>
      else \<lparr>job_id = ''w2'', res = 1, walltime = Finite 10, state = SUBMITTED,
             allocation = None, start_time = None, stop_time = None\<rparr>)"

text \<open>
  A running controller at time 5 over two nodes of one resource each, every resource
  idle and unreserved, every cohort empty.
\<close>

definition ex_base :: rjms where
  "ex_base =
     \<lparr>use_batsim = False, is_running = True, current_time = 5, requests = [],
      resources = [\<lparr>resource_id = 0, parent_id = 0\<rparr>, \<lparr>resource_id = 1, parent_id = 1\<rparr>],
      nodes = [\<lparr>node_id = 0, power_states = [(0, computation), (1, sleep)]\<rparr>,
               \<lparr>node_id = 1, power_states = [(0, computation), (1, sleep)]\<rparr>],
      resource_state = (\<lambda>i. IDLE), jobs = ex_jobs,
      queue = [], ready = [], running = [], completed = [],
      agenda = [(0, None), (1, None)], submitter_ended = False, callbacks = []\<rparr>"

text \<open>Jobs 0 and 1 are ready; resource 0 sleeps, resource 1 is idle.\<close>

definition ex_ready :: rjms where
  "ex_ready =
     ex_base\<lparr>resource_state := (\<lambda>i. if i = 0 then SLEEPING else IDLE), ready := [0, 1],
             agenda := [(0, Some 0), (1, Some 1)]\<rparr>"

text \<open>Jobs 0 and 1 are running since time 0 on the resources 0 and 1.\<close>

definition ex_running :: rjms where
  "ex_running =
     ex_base\<lparr>resource_state := (\<lambda>i. COMPUTING), jobs := (\<lambda>j. start 0 (ex_jobs j)),
             running := [(''w0'', 0), (''w1'', 1)], agenda := [(0, Some 0), (1, Some 1)]\<rparr>"

text \<open>Job 2 waits in the queue; resource 0 is reserved by job 0, resource 1 is free.\<close>

definition ex_queue :: rjms where
  "ex_queue = ex_base\<lparr>queue := [2], agenda := [(0, Some 0), (1, None)]\<rparr>"


text \<open>The submitter has ended and every cohort is empty.\<close>

definition ex_drained :: rjms where
  "ex_drained = ex_base\<lparr>submitter_ended := True\<rparr>"

text \<open>The same with the Batsim backend.\<close>

definition ex_batsim :: rjms where
  "ex_batsim = ex_drained\<lparr>use_batsim := True\<rparr>"

text \<open>
  An adapter whose every call moves the clock on by one and which ends the simulation
  with the call made at time 6 or later.
\<close>

definition ex_sim :: "rjms \<Rightarrow> (unit, rjms) outcome" where
  "ex_sim s = Return () (s\<lparr>current_time := current_time s + 1, is_running := current_time s < 6\<rparr>)"


definition ex_begun :: rjms where
  "ex_begun = ex_base\<lparr>resource_state := (\<lambda>i. if i = 0 then SLEEPING else IDLE)\<rparr>"





section \<open>Properties of the agenda\<close>

lemma sd_set_Inl: "sd_set ag k v = Inl e \<Longrightarrow> e = AttributeError \<and> map_of ag k = None"
  by (induction ag) (auto split: if_splits sum.splits)

lemma sd_set_Inr: "sd_set ag k v = Inr ag' \<Longrightarrow> map_of ag' = (map_of ag)(k \<mapsto> v)"
proof (induction ag arbitrary: ag')
  case Nil
  then show ?case by simp
next
  case (Cons kv ag)
  obtain k' v' where kv: "kv = (k', v')" by (cases kv)
  show ?case
  proof (cases "k = k'")
    case True
    with Cons.prems kv show ?thesis by (auto simp: fun_eq_iff)
  next
    case False
    with Cons.prems kv obtain ys where ys: "sd_set ag k v = Inr ys" and ag': "ag' = (k', v') # ys"
      by (auto split: sum.splits)
    from Cons.IH[OF ys] ag' kv False show ?thesis by (auto simp: fun_eq_iff)
  qed
qed

lemma sd_set_key: "map_of ag k \<noteq> None \<Longrightarrow> \<exists>ag'. sd_set ag k v = Inr ag'"
  by (induction ag) (auto split: if_splits)

lemma set_all_keys:
  "list_all (\<lambda>r. map_of ag r \<noteq> None) ids \<Longrightarrow>
     \<exists>ag'. set_all ag ids v = Return () ag'
          \<and> (\<forall>k. map_of ag' k = (if k \<in> set ids then Some v else map_of ag k))"
proof (induction ids arbitrary: ag)
  case Nil
  then show ?case by simp
next
  case (Cons r ids)
  from Cons.prems have "map_of ag r \<noteq> None" by simp
  from sd_set_key[OF this] obtain ag1 where s1: "sd_set ag r v = Inr ag1" by blast
  from sd_set_Inr[OF s1] have m1: "map_of ag1 = (map_of ag)(r \<mapsto> v)" .
  from Cons.prems have "list_all (\<lambda>x. map_of ag1 x \<noteq> None) ids"
    by (simp add: m1 list_all_iff)
  from Cons.IH[OF this] obtain ag' where r': "set_all ag1 ids v = Return () ag'"
    and m': "\<forall>k. map_of ag' k = (if k \<in> set ids then Some v else map_of ag1 k)" by blast
  from s1 r' have "set_all ag (r # ids) v = Return () ag'" by simp
  moreover from m' m1 have "\<forall>k. map_of ag' k = (if k \<in> set (r # ids) then Some v else map_of ag k)"
    by simp
  ultimately show ?case by blast
qed

lemma all_free_iff: "all_free ag al = Inr True \<longleftrightarrow> list_all (\<lambda>r. map_of ag r = Some None) al"
  by (induction al) (auto split: option.splits)

text \<open>
  C9. When every resource of an allocation is free in the agenda, reserving it for a
  job, releasing the allocation and reserving it for a second job with the same
  allocation all succeed, and afterwards every resource of the allocation is reserved
  by the second job while every other entry is as it was at the start.
\<close>

theorem reserve_release_reserve:
  assumes "allocation (js j) = Some al" and "allocation (js j2) = Some al"
    and "list_all (\<lambda>r. map_of ag r = Some None) al"
  shows "\<exists>ag1 ag2 ag3.
           reserve js ag j = Return () ag1 \<and> release ag1 al = Return () ag2
         \<and> reserve js ag2 j2 = Return () ag3
         \<and> (\<forall>k. map_of ag3 k = (if k \<in> set al then Some (Some j2) else map_of ag k))"
proof -
  have k0: "list_all (\<lambda>r. map_of ag r \<noteq> None) al"
    using assms(3) by (simp add: list_all_iff)
  from set_all_keys[OF k0, of "Some j"] obtain ag1 where
    s1: "set_all ag al (Some j) = Return () ag1"
    and m1: "\<forall>k. map_of ag1 k = (if k \<in> set al then Some (Some j) else map_of ag k)" by blast
  have "all_free ag al = Inr True"
    using assms(3) by (simp add: all_free_iff)
  then have 1: "reserve js ag j = Return () ag1"
    using assms(1) s1 by (simp add: reserve_def)
  have k1: "list_all (\<lambda>r. map_of ag1 r \<noteq> None) al"
    using m1 by (simp add: list_all_iff)
  from set_all_keys[OF k1, of None] obtain ag2 where
    s2: "set_all ag1 al None = Return () ag2"
    and m2: "\<forall>k. map_of ag2 k = (if k \<in> set al then Some None else map_of ag1 k)" by blast
  have 2: "release ag1 al = Return () ag2"
    using s2 by (simp add: release_def)
  have f2: "list_all (\<lambda>r. map_of ag2 r = Some None) al"
    using m2 by (simp add: list_all_iff)
  then have k2: "list_all (\<lambda>r. map_of ag2 r \<noteq> None) al"
    by (simp add: list_all_iff)
  from set_all_keys[OF k2, of "Some j2"] obtain ag3 where
    s3: "set_all ag2 al (Some j2) = Return () ag3"
    and m3: "\<forall>k. map_of ag3 k = (if k \<in> set al then Some (Some j2) else map_of ag2 k)" by blast
  from f2 have "all_free ag2 al = Inr True"
    by (simp only: all_free_iff)
  then have 3: "reserve js ag2 j2 = Return () ag3"
    using assms(2) s3 by (simp add: reserve_def)
  have 4: "\<forall>k. map_of ag3 k = (if k \<in> set al then Some (Some j2) else map_of ag k)"
    using m1 m2 m3 by simp
  from 1 2 3 4 show ?thesis by blast
qed

theorem reserve_release_reserve_witness:
  "\<exists>ag1 ag2 ag3.
     reserve (\<lambda>_. ex_job [0, 1]) [(0, None), (1, None), (2, None)] 0 = Return () ag1
   \<and> release ag1 [0, 1] = Return () ag2
   \<and> reserve (\<lambda>_. ex_job [0, 1]) ag2 1 = Return () ag3
   \<and> (\<forall>k. map_of ag3 k = (if k \<in> set [0, 1] then Some (Some 1)
                           else map_of [(0, None), (1, None), (2, None)] k))"
  using reserve_release_reserve
          [of "\<lambda>_. ex_job [0, 1]" 0 "[0, 1]" 1 "[(0, None), (1, None), (2, None)]"]
  by (simp add: ex_job_def)

text \<open>
  C8, as the code has it. \<open>release\<close> never looks at the reservation of a resource: for
  every agenda and every list of resources of the agenda it returns normally, whether
  the listed resources are reserved or not, and leaves each listed resource free and
  every other entry untouched.
\<close>

theorem release_never_checks:
  assumes "list_all (\<lambda>r. map_of ag r \<noteq> None) ids"
  shows "\<exists>ag'. release ag ids = Return () ag'
       \<and> (\<forall>k. map_of ag' k = (if k \<in> set ids then Some None else map_of ag k))"
  using set_all_keys[OF assms, of None] by (simp add: release_def)

theorem release_never_checks_witness:
  "\<exists>ag'. release [(0, None), (1, Some 7)] [0, 1] = Return () ag'
       \<and> (\<forall>k. map_of ag' k = (if k \<in> set [0, 1] then Some None
                               else map_of [(0, None), (1, Some 7)] k))"
  using release_never_checks [of "[(0, None), (1, Some 7)]" "[0, 1]"] by simp

text \<open>
  C8 as stated fails: resource 0 holds no reservation, and releasing it returns
  normally with the agenda unchanged.
\<close>

theorem release_unreserved_counterexample:
  "release [(0, None), (1, Some 7)] [0] = Return () [(0, None), (1, Some 7)]"
  by (simp add: release_def)

lemma release_unknown:
  "map_of ag r = None \<Longrightarrow> release ag (r # ids) = Raise AttributeError ag"
proof -
  assume "map_of ag r = None"
  then have "\<exists>e. sd_set ag r None = Inl e"
    by (induction ag) (auto split: if_splits)
  then obtain e where e: "sd_set ag r None = Inl e" ..
  with sd_set_Inl[OF e] show ?thesis by (simp add: release_def)
qed

text \<open>
  C3, as the code has it. When every running job that holds a reservation has a start
  time and a walltime other than zero, \<open>get_progress\<close> returns, per resource in key
  order: 0 for a free resource; \<open>1 - (now - start_time) / walltime\<close>, not clamped, for
  a running job with a finite walltime; 1 for a running job with an infinite walltime;
  1 for a reserving job that is not running.
\<close>

theorem get_progress_formula:
  assumes "list_all (\<lambda>kv. case snd kv of None \<Rightarrow> True
              | Some j \<Rightarrow> state (js j) = RUNNING \<longrightarrow>
                  start_time (js j) \<noteq> None \<and> walltime (js j) \<noteq> Finite 0) ag"
  shows "get_progress js ag now =
           Inr (map (\<lambda>kv. case snd kv of
                       None \<Rightarrow> 0
                     | Some j \<Rightarrow>
                         if state (js j) = RUNNING then
                           (case walltime (js j) of
                              Finite w \<Rightarrow> 1 - (now - the (start_time (js j))) / w
                            | Infinite \<Rightarrow> 1)
                         else 1) ag)"
  using assms
proof (induction ag)
  case Nil
  then show ?case by simp
next
  case (Cons kv ag)
  obtain r resv where kv: "kv = (r, resv)" by (cases kv)
  show ?case
  proof (cases resv)
    case None
    with Cons kv show ?thesis by (simp add: progress_entry_def)
  next
    case (Some j)
    with Cons kv show ?thesis
      by (cases "walltime (js j)") (auto simp: progress_entry_def)
  qed
qed

theorem get_progress_formula_witness:
  "get_progress ex_store [(0, Some 7), (1, Some 8), (2, None), (3, Some 9)] 5
     = Inr [1 / 2, 1, 0, 1]"
  using get_progress_formula
          [of ex_store "[(0, Some 7), (1, Some 8), (2, None), (3, Some 9)]" 5]
  by (simp add: ex_store_def ex_job_def start_def)

text \<open>
  C3 as stated fails: at time 20 the job on resource 0 (started at 0, walltime 10) has
  overrun and its progress is -1, not 0, and the running job with an infinite walltime
  on resource 1 has progress 1, not 0.
\<close>

theorem get_progress_counterexample:
  "get_progress ex_store [(0, Some 7), (1, Some 8)] 20 = Inr [- 1, 1]"
  by (simp add: ex_store_def ex_job_def start_def progress_entry_def)

section \<open>Properties of the sweep over the ready jobs\<close>

lemmas ex_defs = ex_ready_def ex_running_def ex_queue_def ex_drained_def
  ex_base_def ex_jobs_def ex_job_def

lemma same_core_refl: "same_core s s"
  by (simp add: same_core_def)

lemma same_core_trans: "same_core s s1 \<Longrightarrow> same_core s1 s2 \<Longrightarrow> same_core s s2"
  by (simp add: same_core_def)

lemma rs_woken_refl: "rs_woken f f"
  by (simp add: rs_woken_def)

lemma rs_woken_trans: "rs_woken f f1 \<Longrightarrow> rs_woken f1 f2 \<Longrightarrow> rs_woken f f2"
  unfolding rs_woken_def
proof
  fix i
  assume a: "\<forall>i. f1 i = f i \<or> f i = SLEEPING \<and> f1 i = SWITCHING_ON"
    and b: "\<forall>i. f2 i = f1 i \<or> f1 i = SLEEPING \<and> f2 i = SWITCHING_ON"
  from a have "f1 i = f i \<or> f i = SLEEPING \<and> f1 i = SWITCHING_ON" ..
  moreover from b have "f2 i = f1 i \<or> f1 i = SLEEPING \<and> f2 i = SWITCHING_ON" ..
  ultimately show "f2 i = f i \<or> f i = SLEEPING \<and> f2 i = SWITCHING_ON"
    by auto
qed

lemma reqs_ext_refl: "reqs_ext q q"
  by (simp add: reqs_ext_def)

lemma reqs_ext_trans: "reqs_ext q q1 \<Longrightarrow> reqs_ext q1 q2 \<Longrightarrow> reqs_ext q q2"
  unfolding reqs_ext_def
proof -
  assume "\<exists>x. q1 = q @ x \<and> list_all is_pstate_request x"
    and "\<exists>x. q2 = q1 @ x \<and> list_all is_pstate_request x"
  then obtain x y where "q1 = q @ x" "list_all is_pstate_request x"
    "q2 = q1 @ y" "list_all is_pstate_request y" by blast
  then have "q2 = q @ (x @ y) \<and> list_all is_pstate_request (x @ y)" by simp
  then show "\<exists>x. q2 = q @ x \<and> list_all is_pstate_request x" ..
qed

lemma woken_refl: "woken s s"
  by (simp add: woken_def same_core_refl rs_woken_refl reqs_ext_refl)

lemma woken_trans: "woken s s1 \<Longrightarrow> woken s1 s2 \<Longrightarrow> woken s s2"
  unfolding woken_def
  using same_core_trans rs_woken_trans reqs_ext_trans by blast

lemma woken_wakeup: "woken s (wakeup s n)"
  by (simp add: woken_def wakeup_def same_core_def rs_woken_def reqs_ext_def)

lemma woken_request:
  "woken s (s\<lparr>requests := requests s @ [SET_RESOURCES_PSTATE ids p]\<rparr>)"
  by (simp add: woken_def same_core_def rs_woken_def reqs_ext_def)

lemma woken_turn_on: "woken s (state_of (turn_on s n))"
proof (cases "find (\<lambda>nd. node_id nd = n) (nodes s)")
  case None
  then show ?thesis by (simp add: turn_on_def woken_refl)
next
  case (Some nd)
  show ?thesis
  proof (cases "find (\<lambda>ps. snd ps = computation) (power_states nd)")
    case None
    with Some show ?thesis by (simp add: turn_on_def woken_wakeup)
  next
    case (Some ps)
    with \<open>find (\<lambda>nd. node_id nd = n) (nodes s) = Some nd\<close>
    have "state_of (turn_on s n) =
            (wakeup s n)\<lparr>requests := requests (wakeup s n) @
              [SET_RESOURCES_PSTATE
                 (map resource_id (filter (\<lambda>r. parent_id r = n) (resources (wakeup s n))))
                 (fst ps)]\<rparr>"
      by (simp add: turn_on_def Let_def)
    then show ?thesis
      using woken_trans[OF woken_wakeup woken_request] by simp
  qed
qed

lemma woken_initiate_loop: "woken s (state_of (initiate_loop rs rdy v s))"
proof (induction rs arbitrary: rdy v s)
  case Nil
  then show ?case by (simp add: woken_refl)
next
  case (Cons r rs)
  show ?case
  proof (cases "resource_state s (resource_id r) \<noteq> IDLE \<and> parent_id r \<notin> set v \<and> resource_state s (resource_id r) = SLEEPING")
    case True
    show ?thesis
    proof (cases "turn_on s (parent_id r)")
      case (Return u s1)
      then have a: "woken s s1" using woken_turn_on[of s "parent_id r"] by simp
      have b: "woken s1 (state_of (initiate_loop rs False (parent_id r # v) s1))"
        by (rule Cons.IH)
      have "initiate_loop (r # rs) rdy v s = initiate_loop rs False (parent_id r # v) s1"
        using True Return by simp
      then show ?thesis using woken_trans[OF a b] by simp
    next
      case (Raise e s1)
      then have "woken s s1" using woken_turn_on[of s "parent_id r"] by simp
      then show ?thesis using True Raise by simp
    qed
  next
    case False
    show ?thesis
    proof (cases "resource_state s (resource_id r) \<noteq> IDLE \<and> parent_id r \<notin> set v")
      case True
      with False have "initiate_loop (r # rs) rdy v s = initiate_loop rs False (parent_id r # v) s"
        by simp
      then show ?thesis by (simp add: Cons.IH)
    next
      case F: False
      then have "initiate_loop (r # rs) rdy v s = initiate_loop rs rdy v s"
        by (simp only: initiate_loop.simps if_False)
      then show ?thesis by (simp add: Cons.IH)
    qed
  qed
qed

lemma initiate_loop_all_idle:
  "list_all (is_idle s) rs \<Longrightarrow> initiate_loop rs rdy v s = Return rdy s"
  by (induction rs arbitrary: rdy v) (simp_all add: is_idle_def)

lemma woken_idle: "woken s s' \<Longrightarrow> is_idle s' r = is_idle s r"
proof -
  assume "woken s s'"
  then have "resource_state s' (resource_id r) = resource_state s (resource_id r)
      \<or> (resource_state s (resource_id r) = SLEEPING \<and> resource_state s' (resource_id r) = SWITCHING_ON)"
    by (simp add: woken_def rs_woken_def)
  then show ?thesis by (auto simp: is_idle_def)
qed

lemma woken_all_idle: "woken s s' \<Longrightarrow> list_all (is_idle s') rs = list_all (is_idle s) rs"
  by (simp add: list_all_iff woken_idle)

lemma initiate_loop_result:
  "(rdy \<longrightarrow> v = []) \<Longrightarrow> initiate_loop rs rdy v s = Return b s'
     \<Longrightarrow> b = (rdy \<and> list_all (is_idle s) rs)"
proof (induction rs arbitrary: rdy v s)
  case Nil
  then show ?case by simp
next
  case (Cons r rs)
  show ?case
  proof (cases "is_idle s r")
    case True
    then have "initiate_loop (r # rs) rdy v s = initiate_loop rs rdy v s"
      by (simp add: is_idle_def)
    with Cons.prems(2) have "initiate_loop rs rdy v s = Return b s'" by simp
    from Cons.IH[OF Cons.prems(1) this] True show ?thesis by simp
  next
    case False
    show ?thesis
    proof (cases "parent_id r \<in> set v")
      case True
      with Cons.prems(1) have nr: "\<not> rdy" by auto
      then show ?thesis
      proof -
        from True have "initiate_loop (r # rs) rdy v s = initiate_loop rs rdy v s" by simp
        with Cons.prems(2) have "initiate_loop rs rdy v s = Return b s'" by simp
        from Cons.IH[OF Cons.prems(1) this] nr show ?thesis by simp
      qed
    next
      case nv: False
      have "\<exists>s1. initiate_loop rs False (parent_id r # v) s1 = Return b s'"
      proof (cases "resource_state s (resource_id r) = SLEEPING")
        case True
        show ?thesis
        proof (cases "turn_on s (parent_id r)")
          case (Return u s1)
          with True nv False Cons.prems(2)
          have "initiate_loop rs False (parent_id r # v) s1 = Return b s'"
            by (simp add: is_idle_def)
          then show ?thesis ..
        next
          case (Raise e s1)
          with True nv False Cons.prems(2) show ?thesis by (simp add: is_idle_def)
        qed
      next
        case ns: False
        with nv False Cons.prems(2)
        have "initiate_loop rs False (parent_id r # v) s = Return b s'"
          by (simp add: is_idle_def)
        then show ?thesis ..
      qed
      then obtain s1 where l: "initiate_loop rs False (parent_id r # v) s1 = Return b s'" ..
      have "b = (False \<and> list_all (is_idle s1) rs)"
        by (rule Cons.IH[OF _ l]) simp
      then show ?thesis using False by simp
    qed
  qed
qed

lemma get_resources_ids:
  "get_resources rs al = Inr xs \<Longrightarrow> map resource_id xs = al \<and> set xs \<subseteq> set rs"
proof (induction al arbitrary: xs)
  case Nil
  then show ?case by simp
next
  case (Cons i al)
  from Cons.prems obtain r ys where
    f: "find (\<lambda>r. resource_id r = i) rs = Some r"
    and g: "get_resources rs al = Inr ys" and x: "xs = r # ys"
    by (auto split: option.splits sum.splits)
  from f have "resource_id r = i \<and> r \<in> set rs"
    by (auto simp: find_Some_iff)
  with Cons.IH[OF g] x show ?case by simp
qed

lemma start_computing_apply:
  "start_computing xs f i = (if i \<in> set (map resource_id xs) then COMPUTING else f i)"
  unfolding start_computing_def
  by (induction xs arbitrary: f) auto

lemma start_job_ready:
  assumes al: "allocation (jobs s j) = Some al"
    and rs: "get_resources (resources s) al = Inr rs"
    and idle: "list_all (is_idle s) rs"
    and j: "j \<in> set (ready s)"
  shows "start_job s j =
           Return () ((execute s j al rs)\<lparr>ready := remove1 j (ready s),
              running := AList.update (job_id (jobs s j)) j (running s)\<rparr>)"
proof -
  have "initiate_resources s rs = Return True s"
    using idle by (simp add: initiate_resources_def initiate_loop_all_idle)
  moreover have "job_id (jobs (execute s j al rs) j) = job_id (jobs s j)"
    by (simp add: execute_def start_def)
  ultimately show ?thesis
    using al rs j by (simp add: start_job_def move_to_running_def execute_def)
qed

lemma start_job_not_ready:
  assumes "\<not> all_idle s j"
  shows "woken s (state_of (start_job s j))"
proof (cases "allocation (jobs s j)")
  case None
  then show ?thesis by (simp add: start_job_def woken_refl)
next
  case (Some al)
  show ?thesis
  proof (cases "get_resources (resources s) al")
    case (Inl e)
    with Some show ?thesis by (simp add: start_job_def woken_refl)
  next
    case (Inr rs)
    with Some assms have ni: "\<not> list_all (is_idle s) rs"
      by (simp add: all_idle_def allocated_resources_def)
    have w: "woken s (state_of (initiate_resources s rs))"
      by (simp add: initiate_resources_def woken_initiate_loop)
    show ?thesis
    proof (cases "initiate_resources s rs")
      case (Return b s1)
      then have "b = (True \<and> list_all (is_idle s) rs)"
        unfolding initiate_resources_def by (intro initiate_loop_result) auto
      with ni have "\<not> b" by simp
      with Some Inr Return w show ?thesis by (simp add: start_job_def)
    next
      case (Raise e s1)
      with Some Inr w show ?thesis by (simp add: start_job_def)
    qed
  qed
qed

text \<open>
  One iteration of the loop of \<open>start_ready_jobs\<close>, by the test the code makes. The job
  is started (each allocated resource marked computing, the start time set to the
  current time, \<open>execute_job\<close> issued, the job moved from \<open>ready\<close> to \<open>running\<close>) if and
  only if every one of its allocated resources is idle. Otherwise it stays in \<open>ready\<close>:
  the cohorts and the job objects are unchanged and only power-state requests are issued.
\<close>

lemma start_job_all_idle:
  assumes "j \<in> set (ready s)"
  shows "((returns (start_job s j) \<and> job_started s j (state_of (start_job s j))) = all_idle s j)
       \<and> (\<not> all_idle s j \<longrightarrow>
            ready (state_of (start_job s j)) = ready s
          \<and> running (state_of (start_job s j)) = running s
          \<and> jobs (state_of (start_job s j)) = jobs s
          \<and> (\<exists>q. requests (state_of (start_job s j)) = requests s @ q
                 \<and> list_all is_pstate_request q))"
proof (cases "all_idle s j")
  case True
  then obtain al rs where al: "allocation (jobs s j) = Some al"
    and rs: "get_resources (resources s) al = Inr rs" and idle: "list_all (is_idle s) rs"
    by (auto simp: all_idle_def allocated_resources_def split: option.splits sum.splits)
  have ids: "map resource_id rs = al" using get_resources_ids[OF rs] by simp
  note st = start_job_ready[OF al rs idle assms]
  have "job_started s j (state_of (start_job s j))"
    using al ids by (simp add: st job_started_def execute_def fun_eq_iff start_computing_apply)
  with True st show ?thesis by simp
next
  case False
  from start_job_not_ready[OF False] have w: "woken s (state_of (start_job s j))" .
  then have r: "ready (state_of (start_job s j)) = ready s"
    by (simp add: woken_def same_core_def)
  have "length (remove1 j (ready s)) < length (ready s)"
    using assms by (simp add: length_remove1) (cases "ready s"; auto)
  then have "remove1 j (ready s) \<noteq> ready s" by auto
  with r have "\<not> job_started s j (state_of (start_job s j))"
    by (auto simp: job_started_def split: option.splits)
  moreover from w have "running (state_of (start_job s j)) = running s
      \<and> jobs (state_of (start_job s j)) = jobs s
      \<and> (\<exists>q. requests (state_of (start_job s j)) = requests s @ q \<and> list_all is_pstate_request q)"
    by (simp add: woken_def same_core_def reqs_ext_def)
  ultimately show ?thesis using False r by simp
qed

lemma all_idle_ex_ready_1: "all_idle ex_ready 1"
  by (simp add: all_idle_def allocated_resources_def is_idle_def ex_defs)

lemma woken_frame:
  assumes "woken s s'"
  shows "frame k s s'"
proof -
  from assms have c: "same_core s s'" and r: "rs_woken (resource_state s) (resource_state s')"
    and q: "reqs_ext (requests s) (requests s')"
    by (simp_all add: woken_def)
  from r have r': "\<forall>i. i \<notin> alloc_set s k \<longrightarrow> resource_state s i \<noteq> SLEEPING
          \<longrightarrow> resource_state s' i = resource_state s i"
    unfolding rs_woken_def by blast
  from q have q': "\<exists>q. requests s' = requests s @ q"
    unfolding reqs_ext_def by blast
  from c r' q' show ?thesis
    unfolding frame_def same_core_def by simp
qed

lemma frame_execute:
  assumes "allocation (jobs s k) = Some al" and "map resource_id rs = al"
  shows "frame k s (execute s k al rs)"
  using assms by (simp add: frame_def execute_def start_def start_computing_apply alloc_set_def)

lemma frame_started:
  assumes "allocation (jobs s k) = Some al" and "map resource_id rs = al"
  shows "frame k s ((execute s k al rs)\<lparr>ready := remove1 k (ready s),
              running := AList.update (job_id (jobs s k)) k (running s)\<rparr>)"
  using assms by (simp add: frame_def execute_def start_def start_computing_apply alloc_set_def)

lemma start_job_frame: "frame k s (state_of (start_job s k))"
proof (cases "all_idle s k")
  case False
  then show ?thesis by (intro woken_frame start_job_not_ready)
next
  case True
  then obtain al rs where al: "allocation (jobs s k) = Some al"
    and rs: "get_resources (resources s) al = Inr rs" and idle: "list_all (is_idle s) rs"
    by (auto simp: all_idle_def allocated_resources_def split: option.splits sum.splits)
  have ids: "map resource_id rs = al" using get_resources_ids[OF rs] by simp
  have i: "initiate_resources s rs = Return True s"
    using idle by (simp add: initiate_resources_def initiate_loop_all_idle)
  show ?thesis
  proof (cases "k \<in> set (ready s)")
    case True
    from start_job_ready[OF al rs idle True] frame_started[OF al ids]
    show ?thesis by simp
  next
    case False
    then have "start_job s k = Raise ValueError (execute s k al rs)"
      using al rs i by (simp add: start_job_def move_to_running_def execute_def)
    with frame_execute[OF al ids] show ?thesis by simp
  qed
qed

lemma same_core_platform_ok: "same_core s s' \<Longrightarrow> platform_ok s' = platform_ok s"
  by (simp add: same_core_def platform_ok_def node_ok_def)

lemma node_ok_turn_on: "node_ok s n \<Longrightarrow> returns (turn_on s n)"
proof -
  assume a: "node_ok s n"
  show ?thesis
  proof (cases "find (\<lambda>nd. node_id nd = n) (nodes s)")
    case None
    with a show ?thesis by (simp add: node_ok_def)
  next
    case (Some nd)
    show ?thesis
    proof (cases "find (\<lambda>ps. snd ps = computation) (power_states nd)")
      case None
      with a Some show ?thesis by (simp add: node_ok_def)
    next
      case (Some ps)
      with \<open>find (\<lambda>nd. node_id nd = n) (nodes s) = Some nd\<close>
      show ?thesis by (simp add: turn_on_def Let_def)
    qed
  qed
qed

lemma turn_on_returns:
  assumes "platform_ok s" and "r \<in> set (resources s)"
  shows "returns (turn_on s (parent_id r))"
proof -
  from assms have "node_ok s (parent_id r)"
    by (simp add: platform_ok_def list_all_iff)
  then show ?thesis by (rule node_ok_turn_on)
qed

lemma initiate_loop_returns:
  "platform_ok s \<Longrightarrow> set rs \<subseteq> set (resources s) \<Longrightarrow> returns (initiate_loop rs rdy v s)"
proof (induction rs arbitrary: rdy v s)
  case Nil
  then show ?case by simp
next
  case (Cons r rs)
  from Cons.prems have r: "r \<in> set (resources s)" and rs: "set rs \<subseteq> set (resources s)"
    by auto
  show ?case
  proof (cases "resource_state s (resource_id r) \<noteq> IDLE \<and> parent_id r \<notin> set v")
    case True
    show ?thesis
    proof (cases "resource_state s (resource_id r) = SLEEPING")
      case sl: True
      from turn_on_returns[OF Cons.prems(1) r] obtain u s1 where
        t: "turn_on s (parent_id r) = Return u s1"
        by (cases "turn_on s (parent_id r)") simp_all
      with woken_turn_on[of s "parent_id r"] have sc: "same_core s s1"
        by (simp add: woken_def)
      then have p1: "platform_ok s1"
        using Cons.prems(1) by (simp add: same_core_platform_ok)
      from sc rs have r1: "set rs \<subseteq> set (resources s1)"
        by (simp add: same_core_def)
      have "returns (initiate_loop rs False (parent_id r # v) s1)"
        by (rule Cons.IH[OF p1 r1])
      moreover have "initiate_loop (r # rs) rdy v s = initiate_loop rs False (parent_id r # v) s1"
        using True sl t by simp
      ultimately show ?thesis by simp
    next
      case False
      with True have "initiate_loop (r # rs) rdy v s = initiate_loop rs False (parent_id r # v) s"
        by simp
      then show ?thesis using Cons.IH[OF Cons.prems(1) rs] by simp
    qed
  next
    case False
    then have "initiate_loop (r # rs) rdy v s = initiate_loop rs rdy v s"
      by (simp only: initiate_loop.simps if_False)
    then show ?thesis using Cons.IH[OF Cons.prems(1) rs] by simp
  qed
qed

lemma start_job_returns:
  assumes "platform_ok s" and "alloc_ok s k" and "k \<in> set (ready s)"
  shows "returns (start_job s k)"
proof -
  from assms(2) obtain al rs where al: "allocation (jobs s k) = Some al"
    and rs: "get_resources (resources s) al = Inr rs"
    by (auto simp: alloc_ok_def allocated_resources_def split: option.splits sum.splits)
  from get_resources_ids[OF rs] have sub: "set rs \<subseteq> set (resources s)" by simp
  have ret: "returns (initiate_resources s rs)"
    unfolding initiate_resources_def by (rule initiate_loop_returns[OF assms(1) sub])
  then obtain b s1 where i: "initiate_resources s rs = Return b s1"
    by (cases "initiate_resources s rs") simp_all
  have w: "woken s s1"
    using woken_initiate_loop[of s rs True "[]"] i by (simp add: initiate_resources_def)
  show ?thesis
  proof (cases b)
    case False
    with al rs i show ?thesis by (simp add: start_job_def)
  next
    case True
    from w assms(3) have "k \<in> set (ready (execute s1 k al rs))"
      by (simp add: execute_def woken_def same_core_def)
    with True al rs i show ?thesis by (simp add: start_job_def move_to_running_def)
  qed
qed

lemma swept_Nil: "swept [] s s"
  by (simp add: swept_def)

lemma frame_alloc_set: "frame k s s1 \<Longrightarrow> alloc_set s1 m = alloc_set s m"
  unfolding frame_def alloc_set_def by (cases "m = k") simp_all

lemma frame_job_id: "frame k s s1 \<Longrightarrow> job_id (jobs s1 m) = job_id (jobs s m)"
  unfolding frame_def by (cases "m = k") simp_all

lemma frame_allocation: "frame k s s1 \<Longrightarrow> allocation (jobs s1 m) = allocation (jobs s m)"
  unfolding frame_def by (cases "m = k") simp_all

lemma frame_ready: "frame k s s1 \<Longrightarrow> m \<noteq> k \<Longrightarrow> (m \<in> set (ready s1)) = (m \<in> set (ready s))"
  unfolding frame_def by auto

lemma frame_running:
  "frame k s s1 \<Longrightarrow> job_id (jobs s k) \<noteq> x \<Longrightarrow> map_of (running s1) x = map_of (running s) x"
  unfolding frame_def by (auto simp: update_conv')

lemma frame_requests: "frame k s s1 \<Longrightarrow> set (requests s) \<subseteq> set (requests s1)"
  unfolding frame_def by auto

lemma frame_resource_state:
  "frame k s s1 \<Longrightarrow> i \<notin> alloc_set s k \<Longrightarrow> resource_state s i \<noteq> SLEEPING
     \<Longrightarrow> resource_state s1 i = resource_state s i"
  unfolding frame_def by blast

lemma frame_platform:
  "frame k s s1 \<Longrightarrow> resources s1 = resources s \<and> nodes s1 = nodes s
     \<and> current_time s1 = current_time s"
  unfolding frame_def by simp

lemma frame_distinct: "frame k s s1 \<Longrightarrow> distinct (ready s) \<Longrightarrow> distinct (ready s1)"
  unfolding frame_def by auto

lemma frame_control:
  "frame k s s1 \<Longrightarrow> is_running s1 = is_running s \<and> use_batsim s1 = use_batsim s
     \<and> submitter_ended s1 = submitter_ended s \<and> queue s1 = queue s
     \<and> completed s1 = completed s \<and> agenda s1 = agenda s"
  unfolding frame_def by simp

lemma frame_jobs: "frame k s s1 \<Longrightarrow> m \<noteq> k \<Longrightarrow> jobs s1 m = jobs s m"
  unfolding frame_def by simp

lemma swept_Cons:
  assumes f: "frame k s s1" and sw: "swept js s1 s'"
  shows "swept (k # js) s s'"
proof -
  note p = frame_platform[OF f]
  have 1: "resources s' = resources s \<and> nodes s' = nodes s \<and> current_time s' = current_time s"
    using sw p by (simp add: swept_def)
  have 2: "\<forall>m. m \<notin> set (k # js) \<longrightarrow> jobs s' m = jobs s m"
    using sw frame_jobs[OF f] by (simp add: swept_def)
  have 3: "\<forall>m. allocation (jobs s' m) = allocation (jobs s m)"
    using sw frame_allocation[OF f] by (simp add: swept_def)
  have 4: "\<forall>m. job_id (jobs s' m) = job_id (jobs s m)"
    using sw frame_job_id[OF f] by (simp add: swept_def)
  have 5: "\<forall>i. (\<forall>m \<in> set (k # js). i \<notin> alloc_set s m) \<longrightarrow> resource_state s i \<noteq> SLEEPING
          \<longrightarrow> resource_state s' i = resource_state s i"
  proof (intro allI impI)
    fix i
    assume a: "\<forall>m \<in> set (k # js). i \<notin> alloc_set s m" and b: "resource_state s i \<noteq> SLEEPING"
    from a have "i \<notin> alloc_set s k" by simp
    from frame_resource_state[OF f this b] have c: "resource_state s1 i = resource_state s i" .
    from a have "\<forall>m \<in> set js. i \<notin> alloc_set s1 m"
      by (simp add: frame_alloc_set[OF f])
    moreover from b c have "resource_state s1 i \<noteq> SLEEPING" by simp
    ultimately have "resource_state s' i = resource_state s1 i"
      using sw unfolding swept_def by blast
    with c show "resource_state s' i = resource_state s i" by simp
  qed
  have 6: "\<forall>m. m \<notin> set (k # js) \<longrightarrow> (m \<in> set (ready s')) = (m \<in> set (ready s))"
  proof (intro allI impI)
    fix m
    assume a: "m \<notin> set (k # js)"
    then have "(m \<in> set (ready s')) = (m \<in> set (ready s1))"
      using sw unfolding swept_def by simp
    also have "\<dots> = (m \<in> set (ready s))"
      using a by (intro frame_ready[OF f]) simp
    finally show "(m \<in> set (ready s')) = (m \<in> set (ready s))" .
  qed
  have 7: "\<forall>x. (\<forall>m \<in> set (k # js). job_id (jobs s m) \<noteq> x)
          \<longrightarrow> map_of (running s') x = map_of (running s) x"
  proof (intro allI impI)
    fix x
    assume a: "\<forall>m \<in> set (k # js). job_id (jobs s m) \<noteq> x"
    then have "\<forall>m \<in> set js. job_id (jobs s1 m) \<noteq> x"
      by (simp add: frame_job_id[OF f])
    then have "map_of (running s') x = map_of (running s1) x"
      using sw unfolding swept_def by blast
    also have "\<dots> = map_of (running s) x"
      using a by (intro frame_running[OF f]) simp
    finally show "map_of (running s') x = map_of (running s) x" .
  qed
  have 8: "set (requests s) \<subseteq> set (requests s')"
    using sw frame_requests[OF f] unfolding swept_def by blast
  have 9: "distinct (ready s) \<longrightarrow> distinct (ready s')"
    using sw frame_distinct[OF f] unfolding swept_def by blast
  from 1 2 3 4 5 6 7 8 9 show ?thesis
    unfolding swept_def by blast
qed

lemma frame_alloc_ok:
  assumes "frame k s s1"
  shows "alloc_ok s1 m = alloc_ok s m"
proof -
  have "allocated_resources s1 m = allocated_resources s m"
    using frame_allocation[OF assms, of m] frame_platform[OF assms]
    by (simp add: allocated_resources_def split: option.splits)
  then show ?thesis by (simp add: alloc_ok_def)
qed

lemma frame_platform_ok:
  assumes "frame k s s1"
  shows "platform_ok s1 = platform_ok s"
  using frame_platform[OF assms] by (simp add: platform_ok_def node_ok_def)

lemma sweep_swept:
  assumes "distinct js" and "set js \<subseteq> set (ready s)" and "platform_ok s"
    and "list_all (alloc_ok s) js"
  shows "\<exists>s'. sweep js s = Return () s' \<and> swept js s s'"
  using assms
proof (induction js arbitrary: s)
  case Nil
  then show ?case by (simp add: swept_Nil)
next
  case (Cons k js)
  from Cons.prems have k: "k \<in> set (ready s)" and ok: "alloc_ok s k" and nk: "k \<notin> set js"
    by simp_all
  from start_job_returns[OF Cons.prems(3) ok k] obtain s1 where
    st: "start_job s k = Return () s1"
    by (cases "start_job s k") simp_all
  with start_job_frame[of k s] have f: "frame k s s1" by simp
  have a: "distinct js" using Cons.prems(1) by simp
  have b: "set js \<subseteq> set (ready s1)"
  proof
    fix m assume m: "m \<in> set js"
    with nk have "m \<noteq> k" by auto
    from frame_ready[OF f this] m Cons.prems(2) show "m \<in> set (ready s1)" by auto
  qed
  have c: "platform_ok s1" using Cons.prems(3) by (simp add: frame_platform_ok[OF f])
  have "alloc_ok s1 = alloc_ok s"
    by (rule ext) (rule frame_alloc_ok[OF f])
  then have d: "list_all (alloc_ok s1) js"
    using Cons.prems(4) by simp
  from Cons.IH[OF a b c d] obtain s' where sw: "sweep js s1 = Return () s'"
    and swp: "swept js s1 s'" by blast
  from st sw have "sweep (k # js) s = Return () s'" by simp
  with swept_Cons[OF f swp] show ?case by blast
qed

lemma sweep_append:
  "sweep (xs @ ys) s =
     (case sweep xs s of Raise e s1 \<Rightarrow> Raise e s1 | Return u s1 \<Rightarrow> sweep ys s1)"
  by (induction xs arbitrary: s) (simp_all split: outcome.splits)

lemma sweep_control:
  "current_time (state_of (sweep js s)) = current_time s
 \<and> is_running (state_of (sweep js s)) = is_running s
 \<and> use_batsim (state_of (sweep js s)) = use_batsim s
 \<and> submitter_ended (state_of (sweep js s)) = submitter_ended s
 \<and> queue (state_of (sweep js s)) = queue s
 \<and> completed (state_of (sweep js s)) = completed s
 \<and> agenda (state_of (sweep js s)) = agenda s"
proof (induction js arbitrary: s)
  case Nil
  then show ?case by simp
next
  case (Cons k js)
  note f = start_job_frame[of k s]
  show ?case
  proof (cases "start_job s k")
    case (Return u s1)
    with f have "frame k s s1" by simp
    from frame_control[OF this] frame_platform[OF this] Cons.IH[of s1] Return
    show ?thesis by simp
  next
    case (Raise e s1)
    with f have "frame k s s1" by simp
    from frame_control[OF this] frame_platform[OF this] Raise
    show ?thesis by simp
  qed
qed

text \<open>
  C10. A call of \<open>proceed_time\<close> on a running simulation performs the sweep of
  \<open>start_ready_jobs\<close> before anything is asked of the simulator: what follows the sweep
  works on the state the sweep leaves. In that state a ready job whose allocated
  resources were all idle is in \<open>running\<close>, started at the current time, with its
  \<open>execute_job\<close> request issued and its resources computing. The state is well formed:
  the ready jobs are distinct objects with bound allocations of known resources, every
  node has a computation power state, and no other ready job shares the job's id or one
  of its resources.
\<close>

theorem proceed_time_starts_ready_job:
  assumes run: "is_running s"
    and j: "j \<in> set (ready s)" and dist: "distinct (ready s)"
    and idle: "all_idle s j"
    and plat: "platform_ok s"
    and ok: "list_all (alloc_ok s) (ready s)"
    and others: "\<forall>k \<in> set (ready s). k \<noteq> j \<longrightarrow>
                   job_id (jobs s k) \<noteq> job_id (jobs s j) \<and> alloc_set s k \<inter> alloc_set s j = {}"
  shows "\<exists>s1. start_ready_jobs s = Return () s1
            \<and> proceed_time sim until s = after_sweep sim until s1
            \<and> map_of (running s1) (job_id (jobs s j)) = Some j
            \<and> j \<notin> set (ready s1)
            \<and> jobs s1 j = start (current_time s) (jobs s j)
            \<and> EXECUTE_JOB (job_id (jobs s j)) (the (allocation (jobs s j))) \<in> set (requests s1)
            \<and> (\<forall>i \<in> alloc_set s j. resource_state s1 i = COMPUTING)"
proof -
  from idle obtain al rs where al: "allocation (jobs s j) = Some al"
    and rs: "get_resources (resources s) al = Inr rs" and idl: "list_all (is_idle s) rs"
    by (auto simp: all_idle_def allocated_resources_def split: option.splits sum.splits)
  have ids: "map resource_id rs = al" using get_resources_ids[OF rs] by simp
  have aj: "alloc_set s j = set al" using al by (simp add: alloc_set_def)
  from split_list[OF j] obtain pre post where sp: "ready s = pre @ j # post" by blast
  with dist have npre: "j \<notin> set pre" and npost: "j \<notin> set post"
    and dpre: "distinct pre" and dpost: "distinct post" and disj: "set pre \<inter> set post = {}"
    by auto
  have okpre: "list_all (alloc_ok s) pre" and okpost: "list_all (alloc_ok s) post"
    using ok sp by simp_all
  have subpre: "set pre \<subseteq> set (ready s)" and subpost: "set post \<subseteq> set (ready s)"
    using sp by auto
  \<comment> \<open>the jobs before \<open>j\<close>\<close>
  from sweep_swept[OF dpre subpre plat okpre] obtain s1 where
    sw1: "sweep pre s = Return () s1" and swp1: "swept pre s s1" by blast
  have res1: "resources s1 = resources s" and ct1: "current_time s1 = current_time s"
    using swp1 by (simp_all add: swept_def)
  have jobs1: "jobs s1 j = jobs s j" using swp1 npre by (simp add: swept_def)
  have al1: "allocation (jobs s1 j) = Some al" using jobs1 al by simp
  have rs1: "get_resources (resources s1) al = Inr rs" using rs res1 by simp
  have st1: "\<forall>i \<in> set al. resource_state s i \<noteq> SLEEPING \<longrightarrow> resource_state s1 i = resource_state s i"
  proof (intro ballI impI)
    fix i assume i: "i \<in> set al" and ns: "resource_state s i \<noteq> SLEEPING"
    have "\<forall>k \<in> set pre. i \<notin> alloc_set s k"
    proof
      fix k assume k: "k \<in> set pre"
      with npre subpre have "k \<in> set (ready s)" "k \<noteq> j" by auto
      with others have "alloc_set s k \<inter> alloc_set s j = {}" by blast
      with i aj show "i \<notin> alloc_set s k" by auto
    qed
    with ns swp1 show "resource_state s1 i = resource_state s i"
      unfolding swept_def by blast
  qed
  have idl1: "list_all (is_idle s1) rs"
    unfolding list_all_iff
  proof
    fix r assume r: "r \<in> set rs"
    with idl have a: "resource_state s (resource_id r) = IDLE"
      by (simp add: list_all_iff is_idle_def)
    from r ids have "resource_id r \<in> set al" by auto
    with st1 a have "resource_state s1 (resource_id r) = resource_state s (resource_id r)"
      by simp
    with a show "is_idle s1 r" by (simp add: is_idle_def)
  qed
  have j1: "j \<in> set (ready s1)" using swp1 npre j by (simp add: swept_def)
  have d1: "distinct (ready s1)" using swp1 dist by (simp add: swept_def)
  \<comment> \<open>the job \<open>j\<close> itself\<close>
  define s2 where "s2 = (execute s1 j al rs)\<lparr>ready := remove1 j (ready s1),
              running := AList.update (job_id (jobs s1 j)) j (running s1)\<rparr>"
  have st2: "start_job s1 j = Return () s2"
    unfolding s2_def by (rule start_job_ready[OF al1 rs1 idl1 j1])
  have f2: "frame j s1 s2"
    unfolding s2_def by (rule frame_started[OF al1 ids])
  have run2: "map_of (running s2) (job_id (jobs s j)) = Some j"
    by (simp add: s2_def jobs1 update_conv' execute_def)
  have job2: "jobs s2 j = start (current_time s) (jobs s j)"
    by (simp add: s2_def execute_def jobs1 ct1)
  have req2: "EXECUTE_JOB (job_id (jobs s j)) al \<in> set (requests s2)"
    by (simp add: s2_def execute_def jobs1)
  have cmp2: "\<forall>i \<in> set al. resource_state s2 i = COMPUTING"
    using ids by (simp add: s2_def execute_def start_computing_apply)
  have nr2: "j \<notin> set (ready s2)"
    using d1 by (simp add: s2_def execute_def)
  \<comment> \<open>the jobs after \<open>j\<close>\<close>
  have sub2: "set post \<subseteq> set (ready s2)"
  proof
    fix m assume m: "m \<in> set post"
    with disj npost have "m \<notin> set pre" "m \<noteq> j" by auto
    moreover from m subpost have "m \<in> set (ready s)" by auto
    ultimately have "m \<in> set (ready s1)" using swp1 by (simp add: swept_def)
    with \<open>m \<noteq> j\<close> show "m \<in> set (ready s2)" by (simp add: s2_def execute_def)
  qed
  have plat1: "platform_ok s1"
    using plat swp1 by (simp add: swept_def platform_ok_def node_ok_def)
  have plat2: "platform_ok s2" using plat1 by (simp add: frame_platform_ok[OF f2])
  have okeq1: "alloc_ok s1 = alloc_ok s"
  proof
    fix m
    have "allocated_resources s1 m = allocated_resources s m"
      using swp1 by (simp add: allocated_resources_def swept_def split: option.splits)
    then show "alloc_ok s1 m = alloc_ok s m" by (simp add: alloc_ok_def)
  qed
  have okeq2: "alloc_ok s2 = alloc_ok s1"
    by (rule ext) (rule frame_alloc_ok[OF f2])
  have ok2: "list_all (alloc_ok s2) post" using okpost okeq1 okeq2 by simp
  from sweep_swept[OF dpost sub2 plat2 ok2] obtain s3 where
    sw3: "sweep post s2 = Return () s3" and swp3: "swept post s2 s3" by blast
  have jid2: "\<And>m. job_id (jobs s2 m) = job_id (jobs s m)"
    using frame_job_id[OF f2] swp1 by (simp add: swept_def)
  have as2: "\<And>m. alloc_set s2 m = alloc_set s m"
    using frame_alloc_set[OF f2] swp1 by (simp add: swept_def alloc_set_def)
  have oth: "\<forall>k \<in> set post. job_id (jobs s2 k) \<noteq> job_id (jobs s j)
               \<and> alloc_set s2 k \<inter> set al = {}"
  proof
    fix k assume k: "k \<in> set post"
    with npost subpost have "k \<in> set (ready s)" "k \<noteq> j" by auto
    with others aj show "job_id (jobs s2 k) \<noteq> job_id (jobs s j) \<and> alloc_set s2 k \<inter> set al = {}"
      by (simp add: jid2 as2)
  qed
  have run3: "map_of (running s3) (job_id (jobs s j)) = Some j"
  proof -
    from oth have "\<forall>k \<in> set post. job_id (jobs s2 k) \<noteq> job_id (jobs s j)" by blast
    with swp3 have "map_of (running s3) (job_id (jobs s j)) = map_of (running s2) (job_id (jobs s j))"
      unfolding swept_def by blast
    with run2 show ?thesis by simp
  qed
  have nr3: "j \<notin> set (ready s3)"
    using swp3 npost nr2 by (simp add: swept_def)
  have job3: "jobs s3 j = start (current_time s) (jobs s j)"
    using swp3 npost job2 by (simp add: swept_def)
  have req3: "EXECUTE_JOB (job_id (jobs s j)) al \<in> set (requests s3)"
    using swp3 req2 unfolding swept_def by blast
  have cmp3: "\<forall>i \<in> set al. resource_state s3 i = COMPUTING"
  proof
    fix i assume i: "i \<in> set al"
    with oth have "\<forall>k \<in> set post. i \<notin> alloc_set s2 k" by blast
    moreover from cmp2 i have c: "resource_state s2 i = COMPUTING" by simp
    then have "resource_state s2 i \<noteq> SLEEPING" by simp
    ultimately have "resource_state s3 i = resource_state s2 i"
      using swp3 unfolding swept_def by blast
    with c show "resource_state s3 i = COMPUTING" by simp
  qed
  have "sweep (pre @ j # post) s = Return () s3"
    using sw1 st2 sw3 by (simp add: sweep_append)
  then have srj: "start_ready_jobs s = Return () s3"
    by (simp add: start_ready_jobs_def sp)
  then have "proceed_time sim until s = after_sweep sim until s3"
    using run by (simp add: proceed_time_def)
  with srj run3 nr3 job3 req3 cmp3 al aj show ?thesis by auto
qed

theorem proceed_time_starts_ready_job_witness:
  "\<exists>s1. start_ready_jobs ex_ready = Return () s1
      \<and> proceed_time ex_sim 0 ex_ready = after_sweep ex_sim 0 s1
      \<and> map_of (running s1) ''w1'' = Some 1
      \<and> 1 \<notin> set (ready s1)
      \<and> jobs s1 1 = start 5 (ex_jobs 1)
      \<and> EXECUTE_JOB ''w1'' [1] \<in> set (requests s1)
      \<and> resource_state s1 1 = COMPUTING"
proof -
  have "is_running ex_ready" "1 \<in> set (ready ex_ready)" "distinct (ready ex_ready)"
    by (simp_all add: ex_defs)
  moreover have "platform_ok ex_ready"
    by (simp add: platform_ok_def node_ok_def ex_defs)
  moreover have "list_all (alloc_ok ex_ready) (ready ex_ready)"
    by (simp add: alloc_ok_def allocated_resources_def ex_defs)
  moreover have "\<forall>k \<in> set (ready ex_ready). k \<noteq> 1 \<longrightarrow>
       job_id (jobs ex_ready k) \<noteq> job_id (jobs ex_ready 1)
     \<and> alloc_set ex_ready k \<inter> alloc_set ex_ready 1 = {}"
    by (simp add: alloc_set_def ex_defs)
  ultimately show ?thesis
    using proceed_time_starts_ready_job [of ex_ready 1 ex_sim 0] all_idle_ex_ready_1
    by (simp add: alloc_set_def ex_defs)
qed

section \<open>Properties of the kill handler\<close>

lemma pop_and_release_ex_w0:
  "pop_and_release ex_running ''w0'' fs =
     Return 0 (ex_running\<lparr>running := [(''w1'', 1)],
        jobs := (jobs ex_running)(0 := terminate 5 fs (jobs ex_running 0)),
        resource_state := (resource_state ex_running)(0 := IDLE),
        agenda := [(0, None), (1, Some 1)]\<rparr>)"
  by (simp add: pop_and_release_def allocated_resources_def release_def Let_def
      terminate_def start_def ex_defs)

text \<open>
  C2 fails on the code. Two jobs run and a \<open>JOB_KILLED\<close> event lists both. When the
  event object carries \<open>job_id = 'w0'\<close>, the first pass of the loop terminates job
  \<open>w0\<close> and releases its resource, and the second pass pops \<open>'w0'\<close> again and raises
  \<open>KeyError\<close>: job \<open>w1\<close> is still in \<open>running\<close>, and \<open>completed\<close> is empty. When the event
  object has no attribute \<open>job_id\<close>, the first pass raises and nothing is terminated.
\<close>

theorem on_job_killed_two_jobs:
  "on_job_killed ex_running [''w0'', ''w1''] (Some ''w0'') =
     Raise KeyError (ex_running\<lparr>running := [(''w1'', 1)],
        jobs := (jobs ex_running)(0 := terminate 5 COMPLETED_KILLED (jobs ex_running 0)),
        resource_state := (resource_state ex_running)(0 := IDLE),
        agenda := [(0, None), (1, Some 1)]\<rparr>)
 \<and> on_job_killed ex_running [''w0'', ''w1''] None = Raise AttributeError ex_running"
  by (simp add: pop_and_release_ex_w0) (simp add: pop_and_release_def)

lemma on_job_submitted_accounted:
  "returns (on_job_submitted s j) \<and> accounted (state_of (on_job_submitted s j)) = accounted s + 1"
  by (simp add: on_job_submitted_def accounted_def)

text \<open>
  C4 fails on the code. Two jobs are accounted for, both running. A \<open>JOB_KILLED\<close> event
  for job \<open>w0\<close> returns normally, the job leaves \<open>running\<close> and enters no cohort, and one
  job only is accounted for afterwards; the completion handler on the same state keeps
  the count at two.
\<close>

theorem on_job_killed_not_conserved:
  "accounted ex_running = 2
 \<and> returns (on_job_killed ex_running [''w0''] (Some ''w0''))
 \<and> accounted (state_of (on_job_killed ex_running [''w0''] (Some ''w0''))) = 1
 \<and> completed (state_of (on_job_killed ex_running [''w0''] (Some ''w0''))) = []
 \<and> accounted (state_of (on_job_completed ex_running ''w0'' COMPLETED_KILLED)) = 2"
  by (simp add: pop_and_release_ex_w0 on_job_completed_def accounted_def) (simp add: ex_defs)

section \<open>Properties of allocate\<close>

lemma reserve_raise:
  assumes "reserve js ag j = Raise e ag'"
  shows "ag' = ag"
proof (cases "allocation (js j)")
  case None
  with assms show ?thesis by (simp add: reserve_def)
next
  case (Some al)
  show ?thesis
  proof (cases "all_free ag al")
    case (Inl e')
    with Some assms show ?thesis by (simp add: reserve_def)
  next
    case (Inr b)
    show ?thesis
    proof (cases b)
      case False
      with Some Inr assms show ?thesis by (simp add: reserve_def)
    next
      case True
      with Inr have "list_all (\<lambda>r. map_of ag r = Some None) al"
        by (simp add: all_free_iff)
      then have "list_all (\<lambda>r. map_of ag r \<noteq> None) al"
        by (simp add: list_all_iff)
      from set_all_keys[OF this, of "Some j"] obtain ag1 where
        "set_all ag al (Some j) = Return () ag1" by blast
      with Some Inr True assms show ?thesis by (simp add: reserve_def)
    qed
  qed
qed




section \<open>Properties of proceed_time\<close>

lemma while_option_first_stop:
  assumes "while_option b c s = Some t"
  shows "\<exists>k. t = (c ^^ k) s \<and> \<not> b t \<and> (\<forall>i<k. b ((c ^^ i) s))"
proof -
  define k where "k = (LEAST k. \<not> b ((c ^^ k) s))"
  have ex: "\<exists>k. \<not> b ((c ^^ k) s)"
  proof (rule ccontr)
    assume "\<not> (\<exists>k. \<not> b ((c ^^ k) s))"
    then have "while_option b c s = None" by (simp add: while_option_def)
    with assms show False by simp
  qed
  then have "while_option b c s = Some ((c ^^ k) s)"
    unfolding k_def by (simp only: while_option_def if_True)
  with assms have t: "t = (c ^^ k) s" by simp
  from ex have stop: "\<not> b ((c ^^ k) s)"
    unfolding k_def by (rule LeastI_ex)
  have before: "\<forall>i<k. b ((c ^^ i) s)"
  proof (intro allI impI)
    fix i assume "i < k"
    then have "\<not> \<not> b ((c ^^ i) s)"
      unfolding k_def by (rule not_less_Least)
    then show "b ((c ^^ i) s)" by simp
  qed
  from t stop before show ?thesis by blast
qed

lemma drive_first_stop:
  assumes "drive cond sim s = Some r"
  shows "\<exists>k. r = calls sim k s \<and> \<not> (returns r \<and> cond (state_of r))
           \<and> (\<forall>i<k. returns (calls sim i s) \<and> cond (state_of (calls sim i s)))"
  using while_option_first_stop[OF assms[unfolded drive_def]]
  unfolding calls_def by simp

lemma drive_returns:
  assumes "\<not> (returns (calls sim k s) \<and> cond (state_of (calls sim k s)))"
  shows "drive cond sim s \<noteq> None"
proof -
  from assms have "\<exists>k. \<not> (returns (((\<lambda>r. sim (state_of r)) ^^ k) (Return () s))
        \<and> cond (state_of (((\<lambda>r. sim (state_of r)) ^^ k) (Return () s))))"
    unfolding calls_def by blast
  then show ?thesis
    unfolding drive_def while_option_def by simp
qed

lemma drive_unfold:
  "drive cond sim s =
     (case sim s of
        Raise e s1 \<Rightarrow> (if cond s then Some (Raise e s1) else Some (Return () s))
      | Return u s1 \<Rightarrow> (if cond s then drive cond sim s1 else Some (Return () s)))"
proof (cases "cond s")
  case False
  then show ?thesis
    unfolding drive_def by (subst while_option_unfold) (simp split: outcome.splits)
next
  case True
  show ?thesis
  proof (cases "sim s")
    case (Return u s1)
    with True show ?thesis
      unfolding drive_def by (subst while_option_unfold) simp
  next
    case (Raise e s1)
    with True show ?thesis
      unfolding drive_def
      by (subst while_option_unfold, simp, subst while_option_unfold, simp)
  qed
qed

text \<open>
  C6, as the code has it. Let a call of \<open>proceed_time\<close> on a running simulation have
  completed its sweep and its advance in a state \<open>s2\<close> where the submitter has ended and
  \<open>queue\<close>, \<open>ready\<close> and \<open>running\<close> are empty. With \<open>use_batsim\<close> set and the adapter still
  running, the call goes on as the loop that calls \<open>proceed_simulation\<close> while the
  adapter reports running: if that loop ends, it ends after some number of calls, in
  the first outcome that raised or reports not running (every earlier call returned
  with the adapter running), and it does end whenever some number of calls leads to
  such an outcome. With \<open>use_batsim\<close> unset the call returns
  right after the advance and drives nothing.
\<close>

theorem proceed_time_drain:
  assumes "is_running s" and "start_ready_jobs s = Return () s1"
    and "advance sim until s1 = Some (Return () s2)"
    and "submitter_ended s2" and "queue s2 = []" and "ready s2 = []" and "running s2 = []"
  shows "(use_batsim s2 \<and> is_running s2 \<longrightarrow>
            proceed_time sim until s = drive is_running sim s2)
       \<and> (\<not> use_batsim s2 \<longrightarrow> proceed_time sim until s = Some (Return () s2))
       \<and> (\<forall>r. drive is_running sim s2 = Some r \<longrightarrow>
            (\<exists>k. r = calls sim k s2 \<and> \<not> (returns r \<and> is_running (state_of r))
               \<and> (\<forall>i<k. returns (calls sim i s2) \<and> is_running (state_of (calls sim i s2)))))
       \<and> (\<forall>k. \<not> (returns (calls sim k s2) \<and> is_running (state_of (calls sim k s2)))
            \<longrightarrow> drive is_running sim s2 \<noteq> None)"
proof -
  have p: "proceed_time sim until s =
             (if use_batsim s2 then check_end_of_simulation sim s2 else Some (Return () s2))"
    using assms(1,2,3) by (simp add: proceed_time_def after_sweep_def)
  have c: "is_running s2 \<Longrightarrow> check_end_of_simulation sim s2 = drive is_running sim s2"
    using assms(4-7) by (simp add: check_end_of_simulation_def)
  from p c have 1: "use_batsim s2 \<and> is_running s2 \<longrightarrow>
            proceed_time sim until s = drive is_running sim s2" by simp
  from p have 2: "\<not> use_batsim s2 \<longrightarrow> proceed_time sim until s = Some (Return () s2)" by simp
  have 3: "\<forall>r. drive is_running sim s2 = Some r \<longrightarrow>
            (\<exists>k. r = calls sim k s2 \<and> \<not> (returns r \<and> is_running (state_of r))
               \<and> (\<forall>i<k. returns (calls sim i s2) \<and> is_running (state_of (calls sim i s2))))"
    using drive_first_stop by blast
  have 4: "\<forall>k. \<not> (returns (calls sim k s2) \<and> is_running (state_of (calls sim k s2)))
            \<longrightarrow> drive is_running sim s2 \<noteq> None"
    using drive_returns by blast
  from 1 2 3 4 show ?thesis by blast
qed

theorem proceed_time_drain_witness:
  "proceed_time ex_sim 0 ex_batsim =
     Some (Return () (ex_batsim\<lparr>current_time := 7, is_running := False\<rparr>))"
proof -
  have 1: "is_running ex_batsim" and 2: "start_ready_jobs ex_batsim = Return () ex_batsim"
    by (simp_all add: start_ready_jobs_def ex_batsim_def ex_drained_def ex_base_def)
  have 3: "advance ex_sim 0 ex_batsim = Some (Return () (ex_batsim\<lparr>current_time := 6\<rparr>))"
    by (simp add: advance_def ex_sim_def ex_batsim_def ex_drained_def ex_base_def)
  have 4: "submitter_ended (ex_batsim\<lparr>current_time := 6\<rparr>)"
    and 5: "queue (ex_batsim\<lparr>current_time := 6\<rparr>) = []"
    and 6: "ready (ex_batsim\<lparr>current_time := 6\<rparr>) = []"
    and 7: "running (ex_batsim\<lparr>current_time := 6\<rparr>) = []"
    and 8: "use_batsim (ex_batsim\<lparr>current_time := 6\<rparr>) \<and> is_running (ex_batsim\<lparr>current_time := 6\<rparr>)"
    by (simp_all add: ex_batsim_def ex_drained_def ex_base_def)
  have "drive is_running ex_sim (ex_batsim\<lparr>current_time := 6\<rparr>) =
          Some (Return () (ex_batsim\<lparr>current_time := 7, is_running := False\<rparr>))"
    by (simp add: drive_unfold ex_sim_def ex_batsim_def ex_drained_def ex_base_def)
  with proceed_time_drain[OF 1 2 3 4 5 6 7] 8 show ?thesis by simp
qed

text \<open>
  C6 as stated fails: with \<open>use_batsim\<close> unset, the submitter ended and every cohort
  empty, \<open>proceed_time\<close> makes the one call of its advance (the clock goes from 5 to 6)
  and returns while the adapter still reports running.
\<close>

theorem proceed_time_no_drain_counterexample:
  "proceed_time ex_sim 0 ex_drained = Some (Return () (ex_drained\<lparr>current_time := 6\<rparr>))
 \<and> submitter_ended (ex_drained\<lparr>current_time := 6\<rparr>)
 \<and> queue (ex_drained\<lparr>current_time := 6\<rparr>) = []
 \<and> ready (ex_drained\<lparr>current_time := 6\<rparr>) = []
 \<and> running (ex_drained\<lparr>current_time := 6\<rparr>) = []
 \<and> is_running (ex_drained\<lparr>current_time := 6\<rparr>)"
  by (simp add: proceed_time_def after_sweep_def advance_def start_ready_jobs_def ex_sim_def
      ex_drained_def ex_base_def)

text \<open>
  C7, as the code has it. \<open>proceed_time\<close> fails, with the state untouched, when no
  simulation is running. On a running simulation it fails when \<open>0 < until\<close> and
  \<open>until \<le> current_time\<close>: the state it leaves is the one the sweep over the ready jobs
  left, at the same time, so nothing was asked of the simulator. A value \<open>until \<le> 0\<close> is
  no deadline: once the sweep has returned, the call makes one call of
  \<open>proceed_simulation\<close> and does not fail on \<open>until\<close>.
\<close>

theorem proceed_time_failures:
  "(\<not> is_running s \<longrightarrow> proceed_time sim until s = Some (Raise AssertionError s))
 \<and> (is_running s \<and> 0 < until \<and> until \<le> current_time s \<longrightarrow>
      (\<exists>e. proceed_time sim until s = Some (Raise e (state_of (start_ready_jobs s))))
    \<and> current_time (state_of (start_ready_jobs s)) = current_time s)
 \<and> (is_running s \<and> until \<le> 0 \<and> returns (start_ready_jobs s) \<longrightarrow>
      proceed_time sim until s =
        (case sim (state_of (start_ready_jobs s)) of
           Raise e s2 \<Rightarrow> Some (Raise e s2)
         | Return v s2 \<Rightarrow>
             if use_batsim s2 then check_end_of_simulation sim s2 else Some (Return () s2)))"
proof -
  have ct: "current_time (state_of (start_ready_jobs s)) = current_time s"
    using sweep_control[of "ready s" s] by (simp add: start_ready_jobs_def)
  have 1: "\<not> is_running s \<longrightarrow> proceed_time sim until s = Some (Raise AssertionError s)"
    by (simp add: proceed_time_def)
  have 2: "is_running s \<and> 0 < until \<and> until \<le> current_time s \<longrightarrow>
      (\<exists>e. proceed_time sim until s = Some (Raise e (state_of (start_ready_jobs s))))"
  proof
    assume a: "is_running s \<and> 0 < until \<and> until \<le> current_time s"
    show "\<exists>e. proceed_time sim until s = Some (Raise e (state_of (start_ready_jobs s)))"
    proof (cases "start_ready_jobs s")
      case (Raise e s1)
      with a show ?thesis by (simp add: proceed_time_def)
    next
      case (Return u s1)
      with ct have "current_time s1 = current_time s" by simp
      with a Return show ?thesis
        by (simp add: proceed_time_def after_sweep_def advance_def)
    qed
  qed
  have 3: "is_running s \<and> until \<le> 0 \<and> returns (start_ready_jobs s) \<longrightarrow>
      proceed_time sim until s =
        (case sim (state_of (start_ready_jobs s)) of
           Raise e s2 \<Rightarrow> Some (Raise e s2)
         | Return v s2 \<Rightarrow>
             if use_batsim s2 then check_end_of_simulation sim s2 else Some (Return () s2))"
  proof
    assume a: "is_running s \<and> until \<le> 0 \<and> returns (start_ready_jobs s)"
    then obtain s1 where r: "start_ready_jobs s = Return () s1"
      by (cases "start_ready_jobs s") simp_all
    with a show "proceed_time sim until s =
        (case sim (state_of (start_ready_jobs s)) of
           Raise e s2 \<Rightarrow> Some (Raise e s2)
         | Return v s2 \<Rightarrow>
             if use_batsim s2 then check_end_of_simulation sim s2 else Some (Return () s2))"
      by (simp add: proceed_time_def after_sweep_def advance_def split: outcome.splits)
  qed
  from 1 2 3 ct show ?thesis by blast
qed

theorem proceed_time_failures_witness:
  "proceed_time ex_sim 3 (ex_base\<lparr>is_running := False\<rparr>)
     = Some (Raise AssertionError (ex_base\<lparr>is_running := False\<rparr>))
 \<and> (\<exists>e. proceed_time ex_sim 3 ex_base = Some (Raise e ex_base))
 \<and> proceed_time ex_sim 0 ex_base = Some (Return () (ex_base\<lparr>current_time := 6\<rparr>))"
proof -
  have s: "start_ready_jobs ex_base = Return () ex_base"
    by (simp add: start_ready_jobs_def ex_base_def)
  have r: "is_running ex_base" "current_time ex_base = 5" "\<not> use_batsim ex_base"
    by (simp_all add: ex_base_def)
  have e: "ex_sim ex_base = Return () (ex_base\<lparr>current_time := 6\<rparr>)"
    by (simp add: ex_sim_def ex_base_def)
  from proceed_time_failures[of "ex_base\<lparr>is_running := False\<rparr>" ex_sim 3]
    proceed_time_failures[of ex_base ex_sim 3] proceed_time_failures[of ex_base ex_sim 0]
  show ?thesis by (simp add: s r e)
qed

text \<open>
  C7 as stated fails: at time 5, \<open>proceed_time(-1)\<close> and \<open>proceed_time(0)\<close> both return
  normally and advance the simulation to time 6.
\<close>

theorem proceed_time_no_failure_counterexample:
  "current_time ex_base = 5
 \<and> proceed_time ex_sim (- 1) ex_base = Some (Return () (ex_base\<lparr>current_time := 6\<rparr>))
 \<and> proceed_time ex_sim 0 ex_base = Some (Return () (ex_base\<lparr>current_time := 6\<rparr>))"
  by (simp add: proceed_time_def after_sweep_def advance_def start_ready_jobs_def ex_sim_def
      ex_base_def)

section \<open>The invariant of the reachable states\<close>

text \<open>
  Congruence: the invariant reads the cohorts, the agenda, the allocations and the
  computing resources only.
\<close>

lemma cohorts_ok_same:
  assumes "cohorts_ok s" and "queue s' = queue s" and "ready s' = ready s"
    and "running s' = running s"
  shows "cohorts_ok s'"
  using assms by (simp add: cohorts_ok_def)

lemma owned_same:
  assumes "owned s k" and "agenda s' = agenda s"
    and "allocation (jobs s' k) = allocation (jobs s k)"
  shows "owned s' k"
  using assms by (simp add: owned_def alloc_set_def)

lemma owners_ok_same:
  assumes "owners_ok s" and "ready s' = ready s" and "running s' = running s"
    and "agenda s' = agenda s"
    and "\<forall>k \<in> set (ready s) \<union> set (map snd (running s)).
           allocation (jobs s' k) = allocation (jobs s k)"
  shows "owners_ok s'"
  unfolding owners_ok_def
proof
  fix k assume "k \<in> set (ready s') \<union> set (map snd (running s'))"
  with assms(2,3) have k: "k \<in> set (ready s) \<union> set (map snd (running s))" by simp
  with assms(1) have o: "owned s k" by (simp add: owners_ok_def)
  from assms(5) k have a: "allocation (jobs s' k) = allocation (jobs s k)" by blast
  show "owned s' k" by (rule owned_same[OF o assms(4) a])
qed

lemma computing_ok_same:
  assumes "computing_ok s" and "queue s' = queue s" and "ready s' = ready s"
    and "agenda s' = agenda s"
    and "\<forall>i. resource_state s' i = COMPUTING \<longrightarrow> resource_state s i = COMPUTING"
  shows "computing_ok s'"
  unfolding computing_ok_def
proof (intro allI impI)
  fix i assume "resource_state s' i = COMPUTING"
  with assms(5) have "resource_state s i = COMPUTING" by blast
  with assms(1) obtain k where "map_of (agenda s) i = Some (Some k)" "k \<notin> set (ready s)"
    "k \<notin> set (queue s)" unfolding computing_ok_def by blast
  with assms(2,3,4) show "\<exists>k. map_of (agenda s') i = Some (Some k) \<and> k \<notin> set (ready s')
      \<and> k \<notin> set (queue s')" by simp
qed

lemma consistent_same:
  assumes "consistent s" and "queue s' = queue s" and "ready s' = ready s"
    and "running s' = running s" and "agenda s' = agenda s"
    and "\<forall>k \<in> set (ready s) \<union> set (map snd (running s)).
           allocation (jobs s' k) = allocation (jobs s k)"
    and "\<forall>i. resource_state s' i = COMPUTING \<longrightarrow> resource_state s i = COMPUTING"
  shows "consistent s'"
proof -
  from assms(1) have a: "cohorts_ok s" and b: "owners_ok s" and c: "computing_ok s"
    by (simp_all add: consistent_def)
  from cohorts_ok_same[OF a assms(2,3,4)] owners_ok_same[OF b assms(3,4,5,6)]
    computing_ok_same[OF c assms(2,3,5,7)]
  show ?thesis by (simp add: consistent_def)
qed

lemma consistent_initial: "initial s \<Longrightarrow> consistent s"
  by (simp add: initial_def consistent_def cohorts_ok_def owners_ok_def computing_ok_def)

lemma consistent_environment:
  assumes "consistent s" and "\<forall>i. f i = COMPUTING \<longrightarrow> resource_state s i = COMPUTING"
  shows "consistent (s\<lparr>resource_state := f, current_time := t, is_running := b,
                  submitter_ended := e, requests := q, callbacks := cs\<rparr>)"
  by (rule consistent_same[OF assms(1)]) (simp_all add: assms(2))

lemma consistent_woken:
  assumes "consistent s" and "woken s s'"
  shows "consistent s'"
proof -
  from assms(2) have c: "same_core s s'" and r: "rs_woken (resource_state s) (resource_state s')"
    by (simp_all add: woken_def)
  have n: "\<forall>i. resource_state s' i = COMPUTING \<longrightarrow> resource_state s i = COMPUTING"
  proof (intro allI impI)
    fix i assume a: "resource_state s' i = COMPUTING"
    from r have "resource_state s' i = resource_state s i
        \<or> (resource_state s i = SLEEPING \<and> resource_state s' i = SWITCHING_ON)"
      by (simp add: rs_woken_def)
    with a show "resource_state s i = COMPUTING" by auto
  qed
  from c have eq: "queue s' = queue s" "ready s' = ready s" "running s' = running s"
    "agenda s' = agenda s" "jobs s' = jobs s"
    by (simp_all add: same_core_def)
  show ?thesis
    by (rule consistent_same[OF assms(1) eq(1,2,3,4) _ n]) (simp add: eq(5))
qed

lemma consistent_submitted:
  assumes c: "consistent s" and f: "fresh s j"
  shows "consistent (state_of (on_job_submitted (s\<lparr>jobs := (jobs s)(j := jb)\<rparr>) j))"
proof -
  let ?s0 = "s\<lparr>jobs := (jobs s)(j := jb)\<rparr>"
  from f have nj: "j \<notin> set (queue s)" "j \<notin> set (ready s)" "j \<notin> set (map snd (running s))"
    and na: "\<forall>i. map_of (agenda s) i \<noteq> Some (Some j)"
    by (simp_all add: fresh_def)
  have al: "\<forall>k \<in> set (ready s) \<union> set (map snd (running s)).
           allocation (jobs ?s0 k) = allocation (jobs s k)"
  proof
    fix k assume "k \<in> set (ready s) \<union> set (map snd (running s))"
    with nj have "k \<noteq> j" by auto
    then show "allocation (jobs ?s0 k) = allocation (jobs s k)" by simp
  qed
  have c0: "consistent ?s0"
    by (rule consistent_same[OF c _ _ _ _ al]) simp_all
  show ?thesis
  proof (cases "res jb > length (resources s)")
    case True
    then have e: "state_of (on_job_submitted ?s0 j) =
        ?s0\<lparr>requests := requests s @ [REJECT_JOB (job_id jb)]\<rparr>"
      by (simp add: on_job_submitted_def)
    show ?thesis unfolding e
      by (rule consistent_same[OF c0]) simp_all
  next
    case False
    then have e: "state_of (on_job_submitted ?s0 j) = ?s0\<lparr>queue := queue s @ [j]\<rparr>"
      by (simp add: on_job_submitted_def)
    let ?s1 = "?s0\<lparr>queue := queue s @ [j]\<rparr>"
    from c0 have a: "cohorts_ok ?s0" and b: "owners_ok ?s0" and d: "computing_ok ?s0"
      by (simp_all add: consistent_def)
    have 1: "cohorts_ok ?s1"
      using a nj unfolding cohorts_ok_def by simp
    have 2: "owners_ok ?s1"
      by (rule owners_ok_same[OF b]) simp_all
    have 3: "computing_ok ?s1"
      unfolding computing_ok_def
    proof (intro allI impI)
      fix i assume "resource_state ?s1 i = COMPUTING"
      then have "resource_state ?s0 i = COMPUTING" by simp
      with d obtain k where k: "map_of (agenda ?s0) i = Some (Some k)" "k \<notin> set (ready ?s0)"
        "k \<notin> set (queue ?s0)" unfolding computing_ok_def by blast
      with na have "k \<noteq> j" by auto
      with k show "\<exists>k. map_of (agenda ?s1) i = Some (Some k) \<and> k \<notin> set (ready ?s1)
        \<and> k \<notin> set (queue ?s1)" by simp
    qed
    from 1 2 3 show ?thesis unfolding e consistent_def by simp
  qed
qed

text \<open>\<open>allocate\<close> keeps the invariant, whatever its outcome.\<close>

lemma reserve_Return:
  assumes "reserve js ag j = Return () ag1" and "allocation (js j) = Some ids"
  shows "(\<forall>i \<in> set ids. map_of ag i = Some None)
       \<and> (\<forall>k. map_of ag1 k = (if k \<in> set ids then Some (Some j) else map_of ag k))"
proof (cases "all_free ag ids")
  case (Inl e)
  with assms show ?thesis by (simp add: reserve_def)
next
  case (Inr b)
  show ?thesis
  proof (cases b)
    case False
    with Inr assms show ?thesis by (simp add: reserve_def)
  next
    case True
    with Inr have f: "list_all (\<lambda>r. map_of ag r = Some None) ids"
      by (simp add: all_free_iff)
    then have "list_all (\<lambda>r. map_of ag r \<noteq> None) ids"
      by (simp add: list_all_iff)
    from set_all_keys[OF this, of "Some j"] obtain ag' where
      s: "set_all ag ids (Some j) = Return () ag'"
      and m: "\<forall>k. map_of ag' k = (if k \<in> set ids then Some (Some j) else map_of ag k)"
      by blast
    from assms Inr True s have "ag1 = ag'" by (simp add: reserve_def)
    with m f show ?thesis by (simp add: list_all_iff)
  qed
qed

lemma allocate_state:
  "state_of (allocate state_value s jid resource_ids) = s
 \<or> (\<exists>j ids. j \<in> set (queue s) \<and>
      (state_of (allocate state_value s jid resource_ids) =
         s\<lparr>jobs := (jobs s)(j := set_allocation ids (jobs s j))\<rparr>
       \<or> (\<exists>ag1. reserve ((jobs s)(j := set_allocation ids (jobs s j))) (agenda s) j
                  = Return () ag1
            \<and> (state_of (allocate state_value s jid resource_ids) =
                 s\<lparr>jobs := (jobs s)(j := set_allocation ids (jobs s j)), agenda := ag1\<rparr>
               \<or> state_of (allocate state_value s jid resource_ids) =
                 s\<lparr>jobs := (jobs s)(j := set_allocation ids (jobs s j)), agenda := ag1,
                   queue := remove1 j (queue s), ready := ready s @ [j]\<rparr>))))"
proof (cases "find (\<lambda>j. job_id (jobs s j) = jid) (queue s)")
  case None
  then show ?thesis by (simp add: allocate_def)
next
  case (Some j)
  then have jq: "j \<in> set (queue s)" by (auto simp: find_Some_iff)
  define ids where "ids = (case resource_ids of
                    None \<Rightarrow>
                      take (res (jobs s j))
                        (sort_key (\<lambda>r. state_value (resource_state s r))
                           (get_available_resources (agenda s)))
                  | Some xs \<Rightarrow> xs)"
  show ?thesis
  proof (cases "length ids \<noteq> res (jobs s j)")
    case True
    with Some show ?thesis by (simp add: allocate_def ids_def Let_def)
  next
    case False
    define js1 where "js1 = (jobs s)(j := set_allocation ids (jobs s j))"
    define s1 where "s1 = s\<lparr>jobs := js1\<rparr>"
    have eq: "allocate state_value s jid resource_ids =
        (case reserve js1 (agenda s) j of
           Raise e ag \<Rightarrow> Raise e (s1\<lparr>agenda := ag\<rparr>)
         | Return u ag \<Rightarrow>
             (case dispatch (callbacks s) (current_time s) (js1 j) of
                Some e \<Rightarrow> Raise e (s1\<lparr>agenda := ag\<rparr>)
              | None \<Rightarrow>
                  Return () (s1\<lparr>agenda := ag, queue := remove1 j (queue s),
                     ready := ready s @ [j]\<rparr>)))"
      using Some False jq
      by (simp add: allocate_def ids_def[symmetric] Let_def s1_def js1_def
          split: outcome.splits option.splits)
    show ?thesis
    proof (cases "reserve js1 (agenda s) j")
      case (Raise e' ag)
      from reserve_raise[OF Raise] have "ag = agenda s" .
      with eq Raise have "state_of (allocate state_value s jid resource_ids) = s1"
        by (simp add: s1_def)
      with jq show ?thesis unfolding s1_def js1_def by blast
    next
      case (Return u ag)
      then have r: "reserve ((jobs s)(j := set_allocation ids (jobs s j))) (agenda s) j
          = Return () ag" by (simp add: js1_def)
      have "state_of (allocate state_value s jid resource_ids) = s1\<lparr>agenda := ag\<rparr>
          \<or> state_of (allocate state_value s jid resource_ids) =
             s1\<lparr>agenda := ag, queue := remove1 j (queue s), ready := ready s @ [j]\<rparr>"
        using eq Return by (cases "dispatch (callbacks s) (current_time s) (js1 j)") simp_all
      with jq r show ?thesis unfolding s1_def js1_def by blast
    qed
  qed
qed

lemma consistent_bound:
  assumes c: "consistent s" and j: "j \<in> set (queue s)"
  shows "consistent (s\<lparr>jobs := (jobs s)(j := set_allocation ids (jobs s j))\<rparr>)"
proof -
  from c have co: "cohorts_ok s" by (simp add: consistent_def)
  have "\<forall>k \<in> set (ready s) \<union> set (map snd (running s)).
      allocation (jobs (s\<lparr>jobs := (jobs s)(j := set_allocation ids (jobs s j))\<rparr>) k)
        = allocation (jobs s k)"
  proof
    fix k assume k: "k \<in> set (ready s) \<union> set (map snd (running s))"
    with co j have "k \<noteq> j" unfolding cohorts_ok_def by blast
    then show "allocation (jobs (s\<lparr>jobs := (jobs s)(j := set_allocation ids (jobs s j))\<rparr>) k)
        = allocation (jobs s k)" by simp
  qed
  then show ?thesis
    by (intro consistent_same[OF c]) simp_all
qed

lemma consistent_reserved:
  assumes c: "consistent s"
    and m: "\<forall>i. map_of (agenda s) i \<noteq> Some None \<longrightarrow> map_of ag1 i = map_of (agenda s) i"
  shows "consistent (s\<lparr>agenda := ag1\<rparr>)"
proof -
  from c have co: "cohorts_ok s" and ow: "owners_ok s" and cp: "computing_ok s"
    by (simp_all add: consistent_def)
  have 1: "cohorts_ok (s\<lparr>agenda := ag1\<rparr>)"
    by (rule cohorts_ok_same[OF co]) simp_all
  have 2: "owners_ok (s\<lparr>agenda := ag1\<rparr>)"
    unfolding owners_ok_def owned_def
  proof (intro ballI)
    fix k i
    assume "k \<in> set (ready (s\<lparr>agenda := ag1\<rparr>)) \<union> set (map snd (running (s\<lparr>agenda := ag1\<rparr>)))"
      and "i \<in> alloc_set (s\<lparr>agenda := ag1\<rparr>) k"
    then have "k \<in> set (ready s) \<union> set (map snd (running s))" and "i \<in> alloc_set s k"
      by (simp_all add: alloc_set_def)
    with ow have a: "map_of (agenda s) i = Some (Some k)"
      unfolding owners_ok_def owned_def by blast
    with m have "map_of ag1 i = map_of (agenda s) i" by simp
    with a show "map_of (agenda (s\<lparr>agenda := ag1\<rparr>)) i = Some (Some k)" by simp
  qed
  have 3: "computing_ok (s\<lparr>agenda := ag1\<rparr>)"
    unfolding computing_ok_def
  proof (intro allI impI)
    fix i assume "resource_state (s\<lparr>agenda := ag1\<rparr>) i = COMPUTING"
    then have "resource_state s i = COMPUTING" by simp
    with cp obtain k where k: "map_of (agenda s) i = Some (Some k)" "k \<notin> set (ready s)"
      "k \<notin> set (queue s)" unfolding computing_ok_def by blast
    with m have "map_of ag1 i = map_of (agenda s) i" by simp
    with k show "\<exists>k. map_of (agenda (s\<lparr>agenda := ag1\<rparr>)) i = Some (Some k)
        \<and> k \<notin> set (ready (s\<lparr>agenda := ag1\<rparr>)) \<and> k \<notin> set (queue (s\<lparr>agenda := ag1\<rparr>))"
      by simp
  qed
  from 1 2 3 show ?thesis by (simp add: consistent_def)
qed

lemma consistent_moved:
  assumes c: "consistent s" and j: "j \<in> set (queue s)" and o: "owned s j"
  shows "consistent (s\<lparr>queue := remove1 j (queue s), ready := ready s @ [j]\<rparr>)"
proof -
  let ?s' = "s\<lparr>queue := remove1 j (queue s), ready := ready s @ [j]\<rparr>"
  from c have co: "cohorts_ok s" and ow: "owners_ok s" and cp: "computing_ok s"
    by (simp_all add: consistent_def)
  from co j have nr: "j \<notin> set (ready s)" and nv: "j \<notin> set (map snd (running s))"
    and dq: "distinct (queue s)"
    unfolding cohorts_ok_def by blast+
  have sub: "set (remove1 j (queue s)) \<subseteq> set (queue s)" by (rule set_remove1_subset)
  have nq': "j \<notin> set (remove1 j (queue s))" using dq by simp
  have 1: "cohorts_ok ?s'"
  proof -
    have "distinct (queue ?s')" using dq by simp
    moreover have "distinct (ready ?s')" using co nr by (simp add: cohorts_ok_def)
    moreover have "distinct (map snd (running ?s'))" using co by (simp add: cohorts_ok_def)
    moreover have "set (queue ?s') \<inter> set (ready ?s') = {}"
      using co sub nq' unfolding cohorts_ok_def by auto
    moreover have "set (map snd (running ?s')) \<inter> (set (queue ?s') \<union> set (ready ?s')) = {}"
      using co sub nv unfolding cohorts_ok_def by auto
    ultimately show ?thesis unfolding cohorts_ok_def by simp
  qed
  have 2: "owners_ok ?s'"
    unfolding owners_ok_def
  proof
    fix k assume "k \<in> set (ready ?s') \<union> set (map snd (running ?s'))"
    then have "k = j \<or> k \<in> set (ready s) \<union> set (map snd (running s))" by auto
    then have "owned s k" using o ow unfolding owners_ok_def by blast
    then show "owned ?s' k" by (rule owned_same) simp_all
  qed
  have 3: "computing_ok ?s'"
    unfolding computing_ok_def
  proof (intro allI impI)
    fix i assume "resource_state ?s' i = COMPUTING"
    then have "resource_state s i = COMPUTING" by simp
    with cp obtain k where k: "map_of (agenda s) i = Some (Some k)" "k \<notin> set (ready s)"
      "k \<notin> set (queue s)" unfolding computing_ok_def by blast
    with j have "k \<noteq> j" by auto
    moreover from k(3) sub have "k \<notin> set (remove1 j (queue s))" by blast
    ultimately show "\<exists>k. map_of (agenda ?s') i = Some (Some k) \<and> k \<notin> set (ready ?s')
        \<and> k \<notin> set (queue ?s')" using k by simp
  qed
  from 1 2 3 show ?thesis by (simp add: consistent_def)
qed

lemma consistent_allocate:
  assumes c: "consistent s"
  shows "consistent (state_of (allocate state_value s jid resource_ids))"
proof -
  from allocate_state[of state_value s jid resource_ids]
  consider (same) "state_of (allocate state_value s jid resource_ids) = s"
    | (bound) j ids where "j \<in> set (queue s)"
        "state_of (allocate state_value s jid resource_ids) =
           s\<lparr>jobs := (jobs s)(j := set_allocation ids (jobs s j))\<rparr>"
    | (reserved) j ids ag1 where "j \<in> set (queue s)"
        "reserve ((jobs s)(j := set_allocation ids (jobs s j))) (agenda s) j = Return () ag1"
        "state_of (allocate state_value s jid resource_ids) =
           s\<lparr>jobs := (jobs s)(j := set_allocation ids (jobs s j)), agenda := ag1\<rparr>"
    | (moved) j ids ag1 where "j \<in> set (queue s)"
        "reserve ((jobs s)(j := set_allocation ids (jobs s j))) (agenda s) j = Return () ag1"
        "state_of (allocate state_value s jid resource_ids) =
           s\<lparr>jobs := (jobs s)(j := set_allocation ids (jobs s j)), agenda := ag1,
             queue := remove1 j (queue s), ready := ready s @ [j]\<rparr>"
    by blast
  then show ?thesis
  proof cases
    case same
    with c show ?thesis by simp
  next
    case (bound j ids)
    with consistent_bound[OF c bound(1), of ids] show ?thesis by simp
  next
    case (reserved j ids ag1)
    let ?s0 = "s\<lparr>jobs := (jobs s)(j := set_allocation ids (jobs s j))\<rparr>"
    have c0: "consistent ?s0" by (rule consistent_bound[OF c reserved(1)])
    from reserve_Return[OF reserved(2)]
    have f: "\<forall>i \<in> set ids. map_of (agenda s) i = Some None"
      and m: "\<forall>k. map_of ag1 k = (if k \<in> set ids then Some (Some j) else map_of (agenda s) k)"
      by (simp_all add: set_allocation_def)
    have "\<forall>i. map_of (agenda ?s0) i \<noteq> Some None \<longrightarrow> map_of ag1 i = map_of (agenda ?s0) i"
      using f m by auto
    from consistent_reserved[OF c0 this] reserved(3) show ?thesis by simp
  next
    case (moved j ids ag1)
    let ?s0 = "s\<lparr>jobs := (jobs s)(j := set_allocation ids (jobs s j))\<rparr>"
    let ?s1 = "?s0\<lparr>agenda := ag1\<rparr>"
    have c0: "consistent ?s0" by (rule consistent_bound[OF c moved(1)])
    from reserve_Return[OF moved(2)]
    have f: "\<forall>i \<in> set ids. map_of (agenda s) i = Some None"
      and m: "\<forall>k. map_of ag1 k = (if k \<in> set ids then Some (Some j) else map_of (agenda s) k)"
      by (simp_all add: set_allocation_def)
    have "\<forall>i. map_of (agenda ?s0) i \<noteq> Some None \<longrightarrow> map_of ag1 i = map_of (agenda ?s0) i"
      using f m by auto
    from consistent_reserved[OF c0 this] have c1: "consistent ?s1" .
    have j1: "j \<in> set (queue ?s1)" using moved(1) by simp
    have o1: "owned ?s1 j"
      using m by (simp add: owned_def alloc_set_def set_allocation_def)
    from consistent_moved[OF c1 j1 o1] moved(3) show ?thesis by simp
  qed
qed

text \<open>An iteration of the loop of \<open>start_ready_jobs\<close> keeps the invariant.\<close>

lemma update_values: "set (map snd (AList.update x v al)) \<subseteq> insert v (set (map snd al))"
  by (induction al) auto

lemma update_values_distinct:
  "v \<notin> set (map snd al) \<Longrightarrow> distinct (map snd al) \<Longrightarrow> distinct (map snd (AList.update x v al))"
proof (induction al)
  case Nil
  then show ?case by simp
next
  case (Cons p ps)
  show ?case
  proof (cases "fst p = x")
    case True
    with Cons.prems show ?thesis by simp
  next
    case False
    from Cons.prems have "snd p \<noteq> v" and "snd p \<notin> set (map snd ps)" by auto
    with update_values[of x v ps] have "snd p \<notin> set (map snd (AList.update x v ps))" by auto
    with False Cons show ?thesis by simp
  qed
qed

lemma delete_values: "set (map snd (AList.delete x al)) \<subseteq> set (map snd al)"
  by (auto simp: AList.delete_eq)

lemma delete_values_distinct: "distinct (map snd al) \<Longrightarrow> distinct (map snd (AList.delete x al))"
  by (simp add: AList.delete_eq distinct_map_filter)

lemma popped_not_left:
  assumes "map_of al x = Some k" and "distinct (map snd al)"
  shows "k \<notin> set (map snd (AList.delete x al))"
proof
  assume "k \<in> set (map snd (AList.delete x al))"
  then obtain y where y: "(y, k) \<in> set al" and ne: "y \<noteq> x"
    by (auto simp: AList.delete_eq)
  from assms(1) have "(x, k) \<in> set al" by (rule map_of_SomeD)
  moreover from assms(2) have "inj_on snd (set al)" by (simp add: distinct_map)
  ultimately have "(y, k) = (x, k)"
    using y inj_onD[of snd "set al" "(y, k)" "(x, k)"] by simp
  with ne show False by simp
qed

lemma consistent_started:
  assumes c: "consistent s" and j: "j \<in> set (ready s)"
    and al: "allocation (jobs s j) = Some al" and ids: "map resource_id rs = al"
  shows "consistent ((execute s j al rs)\<lparr>ready := remove1 j (ready s),
           running := AList.update (job_id (jobs s j)) j (running s)\<rparr>)"
proof -
  let ?s' = "(execute s j al rs)\<lparr>ready := remove1 j (ready s),
           running := AList.update (job_id (jobs s j)) j (running s)\<rparr>"
  from c have co: "cohorts_ok s" and ow: "owners_ok s" and cp: "computing_ok s"
    by (simp_all add: consistent_def)
  from co j have nq: "j \<notin> set (queue s)" and nv: "j \<notin> set (map snd (running s))"
    and dr: "distinct (ready s)" and dv: "distinct (map snd (running s))"
    unfolding cohorts_ok_def by blast+
  have f: "queue ?s' = queue s" "ready ?s' = remove1 j (ready s)"
    "running ?s' = AList.update (job_id (jobs s j)) j (running s)" "agenda ?s' = agenda s"
    "\<And>k. allocation (jobs ?s' k) = allocation (jobs s k)"
    "\<And>i. resource_state ?s' i = (if i \<in> set al then COMPUTING else resource_state s i)"
    using ids by (auto simp: execute_def start_def start_computing_apply)
  have nr': "j \<notin> set (remove1 j (ready s))" using dr by simp
  have sub: "set (remove1 j (ready s)) \<subseteq> set (ready s)" by (rule set_remove1_subset)
  have vs: "set (map snd (running ?s')) \<subseteq> insert j (set (map snd (running s)))"
    unfolding f by (rule update_values)
  have 1: "cohorts_ok ?s'"
  proof -
    have "distinct (map snd (running ?s'))"
      unfolding f by (rule update_values_distinct[OF nv dv])
    moreover have "distinct (ready ?s')" unfolding f using dr by simp
    moreover have "set (queue ?s') \<inter> set (ready ?s') = {}"
      unfolding f using co sub unfolding cohorts_ok_def by blast
    moreover have "set (map snd (running ?s')) \<inter> (set (queue ?s') \<union> set (ready ?s')) = {}"
    proof -
      have "insert j (set (map snd (running s))) \<inter> (set (queue s) \<union> set (remove1 j (ready s))) = {}"
        using co nq nr' sub unfolding cohorts_ok_def by blast
      then show ?thesis using vs unfolding f by blast
    qed
    moreover have "distinct (queue ?s')" unfolding f using co by (simp add: cohorts_ok_def)
    ultimately show ?thesis unfolding cohorts_ok_def by simp
  qed
  have 2: "owners_ok ?s'"
    unfolding owners_ok_def
  proof
    fix k assume "k \<in> set (ready ?s') \<union> set (map snd (running ?s'))"
    with vs have "k \<in> set (remove1 j (ready s)) \<or> k = j \<or> k \<in> set (map snd (running s))"
      unfolding f by blast
    with j sub have "k \<in> set (ready s) \<union> set (map snd (running s))"
      by blast
    with ow have o: "owned s k" by (simp add: owners_ok_def)
    show "owned ?s' k" by (rule owned_same[OF o f(4) f(5)])
  qed
  have 3: "computing_ok ?s'"
    unfolding computing_ok_def
  proof (intro allI impI)
    fix i assume a: "resource_state ?s' i = COMPUTING"
    show "\<exists>k. map_of (agenda ?s') i = Some (Some k) \<and> k \<notin> set (ready ?s')
        \<and> k \<notin> set (queue ?s')"
    proof (cases "i \<in> set al")
      case True
      from ow j have "owned s j" by (simp add: owners_ok_def)
      with True al have "map_of (agenda s) i = Some (Some j)"
        by (simp add: owned_def alloc_set_def)
      with nr' nq show ?thesis unfolding f by blast
    next
      case False
      have e: "resource_state ?s' i = resource_state s i"
        using f(6)[of i] False by (simp only: if_False)
      from a have "resource_state s i = COMPUTING" unfolding e .
      with cp obtain k where k: "map_of (agenda s) i = Some (Some k)" "k \<notin> set (ready s)"
        "k \<notin> set (queue s)" unfolding computing_ok_def by blast
      from k(2) sub have "k \<notin> set (remove1 j (ready s))" by blast
      with k show ?thesis unfolding f by blast
    qed
  qed
  from 1 2 3 show ?thesis by (simp add: consistent_def)
qed

lemma consistent_start_job:
  assumes c: "consistent s" and j: "j \<in> set (ready s)"
  shows "consistent (state_of (start_job s j))"
proof (cases "all_idle s j")
  case False
  from consistent_woken[OF c start_job_not_ready[OF False]] show ?thesis .
next
  case True
  then obtain al rs where al: "allocation (jobs s j) = Some al"
    and rs: "get_resources (resources s) al = Inr rs" and idle: "list_all (is_idle s) rs"
    by (auto simp: all_idle_def allocated_resources_def split: option.splits sum.splits)
  have ids: "map resource_id rs = al" using get_resources_ids[OF rs] by simp
  from start_job_ready[OF al rs idle j] consistent_started[OF c j al ids]
  show ?thesis by simp
qed

text \<open>The handlers of completion and kill keep the invariant.\<close>

lemma release_single:
  "release ag [i] = Raise AttributeError ag
 \<or> (\<exists>ag'. release ag [i] = Return () ag' \<and> map_of ag' = (map_of ag)(i \<mapsto> None))"
proof (cases "sd_set ag i None")
  case (Inl e)
  with sd_set_Inl[OF Inl] show ?thesis by (simp add: release_def)
next
  case (Inr ag')
  with sd_set_Inr[OF Inr] show ?thesis by (simp add: release_def)
qed

lemma consistent_released_one:
  assumes c: "consistent s"
    and n: "\<forall>k \<in> set (ready s) \<union> set (map snd (running s)). i \<notin> alloc_set s k"
    and m: "\<forall>x. x \<noteq> i \<longrightarrow> map_of ag' x = map_of (agenda s) x"
  shows "consistent (s\<lparr>resource_state := (resource_state s)(i := IDLE), agenda := ag'\<rparr>)"
proof -
  let ?s' = "s\<lparr>resource_state := (resource_state s)(i := IDLE), agenda := ag'\<rparr>"
  from c have co: "cohorts_ok s" and ow: "owners_ok s" and cp: "computing_ok s"
    by (simp_all add: consistent_def)
  have 1: "cohorts_ok ?s'" by (rule cohorts_ok_same[OF co]) simp_all
  have 2: "owners_ok ?s'"
    unfolding owners_ok_def owned_def
  proof (intro ballI)
    fix k x
    assume "k \<in> set (ready ?s') \<union> set (map snd (running ?s'))" and "x \<in> alloc_set ?s' k"
    then have k: "k \<in> set (ready s) \<union> set (map snd (running s))" and x: "x \<in> alloc_set s k"
      by (simp_all add: alloc_set_def)
    with n have "x \<noteq> i" by blast
    with m have "map_of ag' x = map_of (agenda s) x" by simp
    moreover from ow k x have "map_of (agenda s) x = Some (Some k)"
      unfolding owners_ok_def owned_def by blast
    ultimately show "map_of (agenda ?s') x = Some (Some k)" by simp
  qed
  have 3: "computing_ok ?s'"
    unfolding computing_ok_def
  proof (intro allI impI)
    fix x assume "resource_state ?s' x = COMPUTING"
    then have xi: "x \<noteq> i" and "resource_state s x = COMPUTING"
      by (auto split: if_splits)
    with cp obtain k where k: "map_of (agenda s) x = Some (Some k)" "k \<notin> set (ready s)"
      "k \<notin> set (queue s)" unfolding computing_ok_def by blast
    from m xi have "map_of ag' x = map_of (agenda s) x" by simp
    with k show "\<exists>k. map_of (agenda ?s') x = Some (Some k) \<and> k \<notin> set (ready ?s')
        \<and> k \<notin> set (queue ?s')" by simp
  qed
  from 1 2 3 show ?thesis by (simp add: consistent_def)
qed

lemma consistent_release_resources:
  assumes "consistent s"
    and "\<forall>r \<in> set rsl. \<forall>k \<in> set (ready s) \<union> set (map snd (running s)).
           resource_id r \<notin> alloc_set s k"
  shows "consistent (state_of (release_resources rsl s))"
  using assms
proof (induction rsl arbitrary: s)
  case Nil
  then show ?case by simp
next
  case (Cons r rsl)
  let ?i = "resource_id r"
  from Cons.prems(2) have n: "\<forall>k \<in> set (ready s) \<union> set (map snd (running s)).
      ?i \<notin> alloc_set s k" by simp
  from release_single[of "agenda s" ?i] show ?case
  proof
    assume a: "release (agenda s) [?i] = Raise AttributeError (agenda s)"
    have "consistent (s\<lparr>resource_state := (resource_state s)(?i := IDLE), agenda := agenda s\<rparr>)"
      by (rule consistent_released_one[OF Cons.prems(1) n]) simp
    with a show ?thesis by simp
  next
    assume "\<exists>ag'. release (agenda s) [?i] = Return () ag'
        \<and> map_of ag' = (map_of (agenda s))(?i \<mapsto> None)"
    then obtain ag' where a: "release (agenda s) [?i] = Return () ag'"
      and m: "map_of ag' = (map_of (agenda s))(?i \<mapsto> None)" by blast
    let ?s1 = "s\<lparr>resource_state := (resource_state s)(?i := IDLE), agenda := ag'\<rparr>"
    have c1: "consistent ?s1"
      by (rule consistent_released_one[OF Cons.prems(1) n]) (simp add: m)
    have p1: "\<forall>r \<in> set rsl. \<forall>k \<in> set (ready ?s1) \<union> set (map snd (running ?s1)).
           resource_id r \<notin> alloc_set ?s1 k"
      using Cons.prems(2) by (simp add: alloc_set_def)
    from Cons.IH[OF c1 p1] a show ?thesis by simp
  qed
qed

lemma consistent_pop_and_release:
  assumes c: "consistent s"
  shows "consistent (state_of (pop_and_release s jid fs))"
proof (cases "map_of (running s) jid")
  case None
  with c show ?thesis by (simp add: pop_and_release_def)
next
  case (Some k)
  let ?s2 = "s\<lparr>running := AList.delete jid (running s),
               jobs := (jobs s)(k := terminate (current_time s) fs (jobs s k))\<rparr>"
  from c have co: "cohorts_ok s" and ow: "owners_ok s" and cp: "computing_ok s"
    by (simp_all add: consistent_def)
  from Some have kv: "k \<in> set (map snd (running s))"
    by (force dest: map_of_SomeD)
  from co have dv: "distinct (map snd (running s))" by (simp add: cohorts_ok_def)
  have kn: "k \<notin> set (map snd (AList.delete jid (running s)))"
    by (rule popped_not_left[OF Some dv])
  from co kv have kr: "k \<notin> set (ready s)" unfolding cohorts_ok_def by blast
  have al2: "\<And>m. allocation (jobs ?s2 m) = allocation (jobs s m)"
    by (simp add: terminate_def)
  have as2: "\<And>m. alloc_set ?s2 m = alloc_set s m"
    using al2 by (simp add: alloc_set_def)
  have 1: "cohorts_ok ?s2"
    using co delete_values[of jid "running s"] delete_values_distinct[OF dv, of jid]
    unfolding cohorts_ok_def by auto
  have 2: "owners_ok ?s2"
    unfolding owners_ok_def
  proof
    fix m assume "m \<in> set (ready ?s2) \<union> set (map snd (running ?s2))"
    with delete_values[of jid "running s"]
    have "m \<in> set (ready s) \<union> set (map snd (running s))" by auto
    with ow have o: "owned s m" by (simp add: owners_ok_def)
    show "owned ?s2 m" by (rule owned_same[OF o _ al2]) simp
  qed
  have 3: "computing_ok ?s2"
    by (rule computing_ok_same[OF cp]) simp_all
  from 1 2 3 have c2: "consistent ?s2" by (simp add: consistent_def)
  show ?thesis
  proof (cases "allocated_resources ?s2 k")
    case (Inl e)
    with Some c2 show ?thesis by (simp add: pop_and_release_def Let_def)
  next
    case (Inr rsl)
    then obtain al where al: "allocation (jobs s k) = Some al"
      and g: "get_resources (resources s) al = Inr rsl"
      using al2[of k]
      by (auto simp: allocated_resources_def split: option.splits)
    from get_resources_ids[OF g] have ids: "map resource_id rsl = al" by simp
    from ow kv have ok: "owned s k" by (simp add: owners_ok_def)
    have p: "\<forall>r \<in> set rsl. \<forall>m \<in> set (ready ?s2) \<union> set (map snd (running ?s2)).
           resource_id r \<notin> alloc_set ?s2 m"
    proof (intro ballI notI)
      fix r m
      assume r: "r \<in> set rsl" and m: "m \<in> set (ready ?s2) \<union> set (map snd (running ?s2))"
        and i: "resource_id r \<in> alloc_set ?s2 m"
      from m kn kr have mk: "m \<noteq> k" by auto
      from m delete_values[of jid "running s"]
      have "m \<in> set (ready s) \<union> set (map snd (running s))" by auto
      with ow have "owned s m" by (simp add: owners_ok_def)
      with i have 1: "map_of (agenda s) (resource_id r) = Some (Some m)"
        by (simp add: owned_def as2)
      from r ids have "resource_id r \<in> set al" by auto
      with ok al have "map_of (agenda s) (resource_id r) = Some (Some k)"
        by (simp add: owned_def alloc_set_def)
      with 1 mk show False by simp
    qed
    from consistent_release_resources[OF c2 p]
    have "consistent (state_of (release_resources rsl ?s2))" .
    moreover have "state_of (pop_and_release s jid fs) = state_of (release_resources rsl ?s2)"
      using Some Inr by (simp add: pop_and_release_def Let_def split: outcome.splits)
    ultimately show ?thesis by simp
  qed
qed

lemma consistent_on_job_completed:
  assumes "consistent s"
  shows "consistent (state_of (on_job_completed s jid fs))"
proof (cases "pop_and_release s jid fs")
  case (Raise e s3)
  with consistent_pop_and_release[OF assms, of jid fs] show ?thesis
    by (simp add: on_job_completed_def)
next
  case (Return k s3)
  with consistent_pop_and_release[OF assms, of jid fs] have c3: "consistent s3" by simp
  have "consistent (s3\<lparr>completed := completed s3 @ [k]\<rparr>)"
    by (rule consistent_same[OF c3]) simp_all
  with Return show ?thesis by (simp add: on_job_completed_def)
qed

lemma consistent_on_job_killed:
  "consistent s \<Longrightarrow> consistent (state_of (on_job_killed s jids d))"
proof (induction jids arbitrary: s)
  case Nil
  then show ?case by simp
next
  case (Cons i jids)
  show ?case
  proof (cases d)
    case None
    with Cons.prems show ?thesis by simp
  next
    case (Some jid)
    show ?thesis
    proof (cases "pop_and_release s jid COMPLETED_KILLED")
      case (Raise e s3)
      with consistent_pop_and_release[OF Cons.prems, of jid COMPLETED_KILLED] Some
      show ?thesis by simp
    next
      case (Return k s3)
      with consistent_pop_and_release[OF Cons.prems, of jid COMPLETED_KILLED]
      have "consistent s3" by simp
      from Cons.IH[OF this] Some Return show ?thesis by simp
    qed
  qed
qed

lemma reachable_consistent: "reachable s \<Longrightarrow> consistent s"
proof (induction rule: reachable.induct)
  case (begun s)
  then show ?case by (rule consistent_initial)
next
  case (submitted s j jb)
  then show ?case by (intro consistent_submitted)
next
  case (allocated s state_value jid resource_ids)
  then show ?case by (intro consistent_allocate)
next
  case (iterated s j)
  then show ?case by (intro consistent_start_job)
next
  case (completed s jid fs)
  then show ?case by (intro consistent_on_job_completed)
next
  case (killed s jids d)
  then show ?case by (intro consistent_on_job_killed)
next
  case (environment s f t b e q cs)
  then show ?case by (intro consistent_environment)
qed



text \<open>Every state a sweep of \<open>start_ready_jobs\<close> goes through is reachable.\<close>

lemma start_job_ready_cases:
  assumes "j \<in> set (ready s)"
  shows "ready (state_of (start_job s j)) = ready s
       \<or> ready (state_of (start_job s j)) = remove1 j (ready s)"
proof (cases "all_idle s j")
  case True
  with start_job_all_idle[OF assms] have "job_started s j (state_of (start_job s j))"
    by simp
  then show ?thesis by (simp add: job_started_def split: option.splits)
next
  case False
  with start_job_all_idle[OF assms] show ?thesis by simp
qed

lemma sweep_reachable:
  assumes "reachable s" and "set js \<subseteq> set (ready s)" and "distinct js"
  shows "reachable (state_of (sweep js s))"
  using assms
proof (induction js arbitrary: s)
  case Nil
  then show ?case by simp
next
  case (Cons j js)
  from Cons.prems have j: "j \<in> set (ready s)" by simp
  have r1: "reachable (state_of (start_job s j))"
    by (rule reachable.iterated[OF Cons.prems(1) j])
  show ?case
  proof (cases "start_job s j")
    case (Raise e s1)
    with r1 show ?thesis by simp
  next
    case (Return u s1)
    with r1 have r: "reachable s1" by simp
    from Cons.prems have nj: "j \<notin> set js" and d: "distinct js"
      and sub: "set js \<subseteq> set (ready s)" by simp_all
    from start_job_ready_cases[OF j] Return
    have "ready s1 = ready s \<or> ready s1 = remove1 j (ready s)" by simp
    moreover from reachable_consistent[OF Cons.prems(1)] have "distinct (ready s)"
      by (simp add: consistent_def cohorts_ok_def)
    ultimately have "set js \<subseteq> set (ready s1)" using sub nj by auto
    from Cons.IH[OF r this d] Return show ?thesis by simp
  qed
qed

lemma start_ready_jobs_reachable:
  assumes "reachable s"
  shows "reachable (state_of (start_ready_jobs s))"
proof -
  from reachable_consistent[OF assms] have "distinct (ready s)"
    by (simp add: consistent_def cohorts_ok_def)
  with sweep_reachable[OF assms, of "ready s"] show ?thesis
    by (simp add: start_ready_jobs_def)
qed


lemma ex_begun_values:
  "queue ex_begun = []" "ready ex_begun = []" "running ex_begun = []"
  "completed ex_begun = []" "agenda ex_begun = [(0, None), (1, None)]"
  "resources ex_begun = [\<lparr>resource_id = 0, parent_id = 0\<rparr>, \<lparr>resource_id = 1, parent_id = 1\<rparr>]"
  by (simp_all add: ex_begun_def ex_base_def)











end
